theory Spec2Isabelle
  imports Main "HOL-Library.Sublist"
begin

section \<open>JavaScript strings and regular expressions\<close>

text \<open>
  Strings are lists of code units; the model covers the code units below 256
  (Isabelle's \<open>char\<close>), which is where every delimiter of the engine lives.
  The three character escapes the engine's patterns use are predicates on \<open>char\<close>.
\<close>

definition is_space :: "char \<Rightarrow> bool" where
  \<comment> \<open>\<open>\s\<close>: TAB, LF, VT, FF, CR, space and NBSP (the white space below 256)\<close>
  "is_space c = (c = CHR 0x09 \<or> c = CHR 0x0A \<or> c = CHR 0x0B \<or> c = CHR 0x0C
     \<or> c = CHR 0x0D \<or> c = CHR 0x20 \<or> c = CHR 0xA0)"

definition is_word :: "char \<Rightarrow> bool" where
  \<comment> \<open>\<open>\w\<close>: \<open>[A-Za-z0-9_]\<close>\<close>
  "is_word c = (let n = (of_char c :: nat) in
     (65 \<le> n \<and> n \<le> 90) \<or> (97 \<le> n \<and> n \<le> 122) \<or> (48 \<le> n \<and> n \<le> 57) \<or> n = 95)"

definition is_dot :: "char \<Rightarrow> bool" where
  \<comment> \<open>\<open>.\<close> without the \<open>s\<close> flag: anything but a line terminator\<close>
  "is_dot c = (c \<noteq> CHR 0x0A \<and> c \<noteq> CHR 0x0D)"

text \<open>
  Every pattern of the engine is a sequence of literals and of quantified character
  classes (\<open>\s+\<close>, \<open>[^>]*\<close>, \<open>[\s\S]*?\<close>, ...), some of them inside a capture group.
  \<open>Rep q p n cap\<close> is the class \<open>p\<close> repeated at least \<open>n\<close> times, greedy or lazy,
  captured when \<open>cap\<close> holds.
\<close>

datatype quant = Greedy | Lazy

datatype item = Lit string | Rep quant "char \<Rightarrow> bool" nat bool

type_synonym regex = "item list"

fun first_some :: "('a \<Rightarrow> 'b option) \<Rightarrow> 'a list \<Rightarrow> 'b option" where
  "first_some f [] = None"
| "first_some f (k # ks) = (case f k of Some r \<Rightarrow> Some r | None \<Rightarrow> first_some f ks)"

definition counts :: "quant \<Rightarrow> nat \<Rightarrow> nat \<Rightarrow> nat list" where
  \<comment> \<open>the repetition counts a quantifier tries, in the order the backtracking tries them\<close>
  "counts q lo hi = (case q of Greedy \<Rightarrow> rev [lo..<Suc hi] | Lazy \<Rightarrow> [lo..<Suc hi])"

text \<open>
  The backtracking matcher, anchored at the start of the input: the captures in
  order and the input left after the match, or \<open>None\<close>.
\<close>

fun match_here :: "regex \<Rightarrow> string \<Rightarrow> (string list \<times> string) option" where
  "match_here [] s = Some ([], s)"
| "match_here (Lit l # r) s =
     (if prefix l s then match_here r (drop (length l) s) else None)"
| "match_here (Rep q p lo cap # r) s =
     first_some
       (\<lambda>k. case match_here r (drop k s) of
               None \<Rightarrow> None
             | Some (caps, rest) \<Rightarrow> Some ((if cap then [take k s] else []) @ caps, rest))
       (counts q lo (length (takeWhile p s)))"

text \<open>
  The leftmost match: the text before it, the matched text, the captures and the text
  after it.
\<close>

fun rx_search :: "regex \<Rightarrow> string \<Rightarrow> (string \<times> string \<times> string list \<times> string) option" where
  "rx_search r s =
     (case match_here r s of
        Some (caps, rest) \<Rightarrow> Some ([], take (length s - length rest) s, caps, rest)
      | None \<Rightarrow>
          (case s of
             [] \<Rightarrow> None
           | c # t \<Rightarrow>
               (case rx_search r t of
                  None \<Rightarrow> None
                | Some (pre, m, caps, rest) \<Rightarrow> Some (c # pre, m, caps, rest))))"

declare rx_search.simps [simp del]

lemma first_some_SomeD:
  "first_some f ks = Some y \<Longrightarrow> \<exists>k \<in> set ks. f k = Some y"
  by (induction ks) (auto split: option.splits)

lemma match_here_suffix:
  "match_here r s = Some (caps, rest) \<Longrightarrow> suffix rest s"
proof (induction r s arbitrary: caps rest rule: match_here.induct)
  case (1 s)
  then show ?case by simp
next
  case (2 l r s)
  then have "suffix rest (drop (length l) s)"
    by (auto split: if_splits)
  then show ?case
    using suffix_drop suffix_order.trans by blast
next
  case (3 q p lo cap r s)
  from first_some_SomeD [OF "3.prems" [simplified]]
  obtain k caps' where "match_here r (drop k s) = Some (caps', rest)"
    by (auto split: option.splits)
  then have "suffix rest (drop k s)"
    using "3.IH" by blast
  then show ?case
    using suffix_drop suffix_order.trans by blast
qed

lemma rx_search_decomp:
  "rx_search r s = Some (pre, m, caps, rest) \<Longrightarrow> s = pre @ m @ rest"
proof (induction s arbitrary: pre)
  case Nil
  then show ?case
    by (auto simp: rx_search.simps [of r "[]"] split: option.splits dest!: match_here_suffix)
next
  case (Cons c t)
  show ?case
  proof (cases "match_here r (c # t)")
    case None
    with Cons.prems obtain pre' where "rx_search r t = Some (pre', m, caps, rest)" "pre = c # pre'"
      by (auto simp: rx_search.simps [of r "c # t"] split: option.splits)
    with Cons.IH show ?thesis by simp
  next
    case (Some a)
    with Cons.prems have a: "a = (caps, rest)" "pre = []" "m = take (length (c # t) - length rest) (c # t)"
      by (cases a; simp add: rx_search.simps [of r "c # t"])+
    with Some have "suffix rest (c # t)"
      using match_here_suffix by blast
    then obtain u where "c # t = u @ rest"
      by (auto simp: suffix_def)
    with a show ?thesis by simp
  qed
qed

lemma rx_search_length:
  "rx_search r s = Some (pre, m, caps, rest) \<Longrightarrow> length s = length pre + length m + length rest"
  by (drule rx_search_decomp) simp

text \<open>
  All matches of a global pattern, as \<open>String.prototype.matchAll\<close> and the
  \<open>exec\<close> loop produce them: each match with its captures, the search resuming
  after the match (one code unit further after an empty match).
\<close>

function match_all :: "regex \<Rightarrow> string \<Rightarrow> (string \<times> string list) list" where
  "match_all r s =
     (case rx_search r s of
        None \<Rightarrow> []
      | Some (pre, m, caps, rest) \<Rightarrow>
          (m, caps) #
            (if m = [] then (case rest of [] \<Rightarrow> [] | c # t \<Rightarrow> match_all r t)
             else match_all r rest))"
  by pat_completeness auto
termination
  by (relation "measure (\<lambda>(r, s). length s)") (auto dest!: rx_search_length)

declare match_all.simps [simp del]

text \<open>
  \<open>GetSubstitution\<close> of ECMAScript for a replacement string where the pattern has no
  capture group (none of the patterns the engine replaces has one, so \<open>$1\<close> ... stay
  as written): \<open>$$\<close> is a dollar sign, \<open>$&\<close> the matched text, \<open>$`\<close> the text
  before the match and \<open>$'\<close> the text after it.
\<close>

fun get_substitution :: "string \<Rightarrow> string \<Rightarrow> string \<Rightarrow> string \<Rightarrow> string" where
  "get_substitution m front back (c # d # t) =
     (if c = CHR ''$'' \<and> d = CHR ''$'' then CHR ''$'' # get_substitution m front back t
      else if c = CHR ''$'' \<and> d = CHR ''&'' then m @ get_substitution m front back t
      else if c = CHR ''$'' \<and> d = CHR 0x60 then front @ get_substitution m front back t
      else if c = CHR ''$'' \<and> d = CHR 0x27 then back @ get_substitution m front back t
      else c # get_substitution m front back (d # t))"
| "get_substitution m front back t = t"

text \<open>
  \<open>s.replace(r, repl)\<close> for a global pattern \<open>r\<close> and a string \<open>repl\<close>: every match is
  replaced by the substitution of \<open>repl\<close>; \<open>seen\<close> is the part of the subject already
  passed, which \<open>$`\<close> refers to.
\<close>

function rx_replace_all :: "regex \<Rightarrow> string \<Rightarrow> string \<Rightarrow> string \<Rightarrow> string" where
  "rx_replace_all r repl seen s =
     (case rx_search r s of
        None \<Rightarrow> s
      | Some (pre, m, caps, rest) \<Rightarrow>
          pre @ get_substitution m (seen @ pre) rest repl @
            (if m = [] then
               (case rest of [] \<Rightarrow> [] | c # t \<Rightarrow> c # rx_replace_all r repl (seen @ pre @ [c]) t)
             else rx_replace_all r repl (seen @ pre @ m) rest))"
  by pat_completeness auto
termination
  by (relation "measure (\<lambda>(r, repl, seen, s). length s)") (auto dest!: rx_search_length)

declare rx_replace_all.simps [simp del]

definition replace_all :: "regex \<Rightarrow> string \<Rightarrow> string \<Rightarrow> string" where
  "replace_all r repl s = rx_replace_all r repl [] s"

text \<open>
  The engine throws nothing itself, but a function it calls can: the only error of the
  model is the \<open>TypeError\<close> of a built-in function. What may throw returns
  \<open>Inl TypeError\<close> or \<open>Inr\<close> its result.

  \<open>s.replace(r, f)\<close> for a global pattern \<open>r\<close> and a function \<open>f\<close>: the function is
  called for each match in turn, with the matched text as its first argument (the
  functions that occur read no other), and what it returns is put in the place of the
  match as it is; the first call that throws ends the replacement.
\<close>

datatype error = TypeError

function rx_replace_fn :: "regex \<Rightarrow> (string \<Rightarrow> error + string) \<Rightarrow> string \<Rightarrow> error + string" where
  "rx_replace_fn r f s =
     (case rx_search r s of
        None \<Rightarrow> Inr s
      | Some (pre, m, caps, rest) \<Rightarrow>
          (case f m of
             Inl err \<Rightarrow> Inl err
           | Inr v \<Rightarrow>
               (case (if m = [] then
                        (case rest of
                           [] \<Rightarrow> Inr []
                         | c # t \<Rightarrow> (case rx_replace_fn r f t of Inl err \<Rightarrow> Inl err | Inr out \<Rightarrow> Inr (c # out)))
                      else rx_replace_fn r f rest) of
                  Inl err \<Rightarrow> Inl err
                | Inr out \<Rightarrow> Inr (pre @ v @ out))))"
  by pat_completeness auto
termination
  by (relation "measure (\<lambda>(r, f, s). length s)") (auto dest!: rx_search_length)

declare rx_replace_fn.simps [simp del]

text \<open>
  \<open>s.replace(pat, repl)\<close> for a string \<open>pat\<close>: only the first occurrence of
  \<open>pat\<close> is replaced, and \<open>repl\<close> is still read as a substitution template.
\<close>

fun str_search :: "string \<Rightarrow> string \<Rightarrow> (string \<times> string) option" where
  "str_search pat s =
     (if prefix pat s then Some ([], drop (length pat) s)
      else (case s of
              [] \<Rightarrow> None
            | c # t \<Rightarrow> (case str_search pat t of
                         None \<Rightarrow> None
                       | Some (b, a) \<Rightarrow> Some (c # b, a))))"

declare str_search.simps [simp del]

definition replace_str :: "string \<Rightarrow> string \<Rightarrow> string \<Rightarrow> string" where
  "replace_str pat repl s =
     (case str_search pat s of
        None \<Rightarrow> s
      | Some (b, a) \<Rightarrow> b @ get_substitution pat b a repl @ a)"

text \<open>\<open>split\<close> on a one-character separator, \<open>join\<close> and \<open>trim\<close>.\<close>

fun split_on :: "char \<Rightarrow> string \<Rightarrow> string list" where
  "split_on d [] = [[]]"
| "split_on d (c # t) =
     (if c = d then [] # split_on d t
      else (case split_on d t of [] \<Rightarrow> [[c]] | x # xs \<Rightarrow> (c # x) # xs))"

fun join_with :: "char \<Rightarrow> string list \<Rightarrow> string" where
  "join_with d [] = []"
| "join_with d [x] = x"
| "join_with d (x # y # ys) = x @ d # join_with d (y # ys)"

definition trim :: "string \<Rightarrow> string" where
  "trim s = rev (dropWhile is_space (rev (dropWhile is_space s)))"

section \<open>Objects with string keys\<close>

text \<open>
  A plain object is the list of its own properties in creation order. Assigning to an
  existing key keeps its place; assigning a string to \<open>__proto__\<close> goes to the
  inherited setter, which ignores it. \<open>Object.entries\<close> lists the array-index keys
  first, in numeric order, then the others in creation order.

  A plain object inherits the properties of \<open>Object.prototype\<close>, so \<open>ob[k]\<close> is a
  value even where \<open>ob\<close> has no property \<open>k\<close> of its own: a built-in function for
  \<open>constructor\<close>, \<open>toString\<close>, \<open>valueOf\<close> and the like, and the prototype object
  for \<open>__proto__\<close>. The engine uses such a value in one way only, as the second
  argument of \<open>String.prototype.replace\<close>; a function is then called with the matched
  text and with \<open>this\<close> undefined, so \<open>Fun\<close> holds what the function returns for a
  matched text, or the \<open>TypeError\<close> it throws, and \<open>Obj\<close> holds the string that
  \<open>ToString\<close> makes of the object.
\<close>

type_synonym obj = "(string \<times> string) list"

fun obj_put :: "string \<Rightarrow> string \<Rightarrow> obj \<Rightarrow> obj" where
  "obj_put k v [] = [(k, v)]"
| "obj_put k v ((k', v') # kvs) = (if k' = k then (k, v) # kvs else (k', v') # obj_put k v kvs)"

definition obj_set :: "string \<Rightarrow> string \<Rightarrow> obj \<Rightarrow> obj" where
  "obj_set k v ob = (if k = ''__proto__'' then ob else obj_put k v ob)"

definition obj_get :: "obj \<Rightarrow> string \<Rightarrow> string option" where
  "obj_get ob k = map_of ob k"

definition obj_delete :: "string \<Rightarrow> obj \<Rightarrow> obj" where
  "obj_delete k ob = filter (\<lambda>kv. fst kv \<noteq> k) ob"

datatype js_value = Undefined | Str string | Fun "string \<Rightarrow> error + string" | Obj string

definition object_prototype :: "string \<Rightarrow> js_value" where
  \<comment> \<open>\<open>Object(matched)\<close> is a wrapper of the matched text; \<open>toString\<close> answers for an
      undefined \<open>this\<close>; \<open>isPrototypeOf\<close> of a string is false; the others start with
      \<open>ToObject(this)\<close>, which throws\<close>
  "object_prototype k =
     (if k = ''constructor'' then Fun (\<lambda>matched. Inr matched)
      else if k = ''toString'' then Fun (\<lambda>matched. Inr ''[object Undefined]'')
      else if k = ''isPrototypeOf'' then Fun (\<lambda>matched. Inr ''false'')
      else if k \<in> set [''valueOf'', ''toLocaleString'', ''hasOwnProperty'', ''propertyIsEnumerable'',
                       ''__defineGetter__'', ''__defineSetter__'', ''__lookupGetter__'',
                       ''__lookupSetter__'']
      then Fun (\<lambda>matched. Inl TypeError)
      else if k = ''__proto__'' then Obj ''[object Object]''
      else Undefined)"

definition obj_lookup :: "obj \<Rightarrow> string \<Rightarrow> js_value" where
  \<comment> \<open>\<open>ob[k]\<close>\<close>
  "obj_lookup ob k = (case obj_get ob k of Some v \<Rightarrow> Str v | None \<Rightarrow> object_prototype k)"

definition truthy :: "js_value \<Rightarrow> bool" where
  "truthy v = (case v of Undefined \<Rightarrow> False | Str t \<Rightarrow> t \<noteq> [] | Fun f \<Rightarrow> True | Obj t \<Rightarrow> True)"

definition replace_value :: "regex \<Rightarrow> js_value \<Rightarrow> string \<Rightarrow> error + string" where
  \<comment> \<open>\<open>s.replace(r, v)\<close> for a global pattern \<open>r\<close>: a function is called, any other
      value is made a string and read as a replacement template\<close>
  "replace_value r v s =
     (case v of
        Fun f \<Rightarrow> rx_replace_fn r f s
      | Str t \<Rightarrow> Inr (replace_all r t s)
      | Obj t \<Rightarrow> Inr (replace_all r t s)
      | Undefined \<Rightarrow> Inr (replace_all r ''undefined'' s))"

definition is_digit :: "char \<Rightarrow> bool" where
  "is_digit c = (let n = (of_char c :: nat) in 48 \<le> n \<and> n \<le> 57)"

definition decimal :: "string \<Rightarrow> nat" where
  "decimal k = foldl (\<lambda>a c. 10 * a + (of_char c - 48)) 0 k"

definition is_array_index :: "string \<Rightarrow> bool" where
  \<comment> \<open>a canonical numeric string below \<open>2^32 - 1\<close>\<close>
  "is_array_index k =
     (k \<noteq> [] \<and> list_all is_digit k \<and> (k = ''0'' \<or> hd k \<noteq> CHR ''0'') \<and> decimal k < 4294967295)"

definition object_entries :: "obj \<Rightarrow> (string \<times> string) list" where
  "object_entries ob =
     sort_key (\<lambda>kv. decimal (fst kv)) (filter (\<lambda>kv. is_array_index (fst kv)) ob)
       @ filter (\<lambda>kv. \<not> is_array_index (fst kv)) ob"

section \<open>The engine's utilities (\<open>utils.js\<close>)\<close>

definition not_char :: "char \<Rightarrow> char \<Rightarrow> bool" where
  \<comment> \<open>the class \<open>[^d]\<close>\<close>
  "not_char d c = (c \<noteq> d)"

definition any_char :: "char \<Rightarrow> bool" where
  \<comment> \<open>the class \<open>[\s\S]\<close>\<close>
  "any_char c = True"

definition is_attr_char :: "char \<Rightarrow> bool" where
  \<comment> \<open>the class \<open>[\w-]\<close>\<close>
  "is_attr_char c = (is_word c \<or> c = CHR ''-'')"

definition attrs_of :: "(string \<times> string list) list \<Rightarrow> obj" where
  \<comment> \<open>the loop \<open>attrs[attrMatch[1]] = attrMatch[2]\<close> over the matches of an attribute pattern\<close>
  "attrs_of ms =
     foldl (\<lambda>attrs mc. case snd mc of [k, v] \<Rightarrow> obj_set k v attrs | _ \<Rightarrow> attrs) [] ms"

definition self_closing_tag_rx :: regex where
  \<comment> \<open>\<open>/<Component\s+([^>]+)\s*\/>/\<close>\<close>
  \<open>self_closing_tag_rx =
     [Lit ''<Component'', Rep Greedy is_space 1 False, Rep Greedy (not_char CHR ''>'') 1 True,
      Rep Greedy is_space 0 False, Lit ''/>'']\<close>

definition hyphen_attr_rx :: regex where
  \<comment> \<open>\<open>/([\w-]+)="([^"]*)"/g\<close>\<close>
  \<open>hyphen_attr_rx =
     [Rep Greedy is_attr_char 1 True, Lit [CHR ''='', CHR 0x22],
      Rep Greedy (not_char (CHR 0x22)) 0 True, Lit [CHR 0x22]]\<close>

definition parseSelfClosingComponentTag :: "string \<Rightarrow> obj option" where
  "parseSelfClosingComponentTag tag =
     (case rx_search self_closing_tag_rx tag of
        None \<Rightarrow> None
      | Some (pre, m, caps, rest) \<Rightarrow>
          (case caps of
             [inner] \<Rightarrow> Some (attrs_of (match_all hyphen_attr_rx inner))
           | _ \<Rightarrow> None))"

definition variants_rx :: regex where
  \<comment> \<open>\<open>/<!--\s*variants:\s*(.+?)\s*-->/\<close>\<close>
  "variants_rx =
     [Lit ''<!--'', Rep Greedy is_space 0 False, Lit ''variants:'', Rep Greedy is_space 0 False,
      Rep Lazy is_dot 1 True, Rep Greedy is_space 0 False, Lit ''-->'']"

definition add_variant :: "obj \<Rightarrow> string \<Rightarrow> obj" where
  \<comment> \<open>the body of the loop over the pairs\<close>
  "add_variant variants pair =
     (case split_on CHR ''='' pair of
        [] \<Rightarrow> variants
      | name # classParts \<Rightarrow>
          (let classes = join_with CHR ''='' classParts in
           if name \<noteq> [] \<and> classes \<noteq> [] then obj_set (trim name) (trim classes) variants
           else variants))"

definition parseVariants :: "string \<Rightarrow> obj" where
  "parseVariants html =
     (case rx_search variants_rx html of
        None \<Rightarrow> []
      | Some (pre, m, caps, rest) \<Rightarrow>
          (case caps of
             [variantsStr] \<Rightarrow> foldl add_variant [] (split_on CHR '','' variantsStr)
           | _ \<Rightarrow> []))"

definition unused_rx :: regex where
  \<comment> \<open>\<open>/\{\{\s*\w+\s*\}\}/g\<close>\<close>
  "unused_rx =
     [Lit ''{{'', Rep Greedy is_space 0 False, Rep Greedy is_word 1 False,
      Rep Greedy is_space 0 False, Lit ''}}'']"

definition cleanUnusedPlaceholders :: "string \<Rightarrow> string" where
  "cleanUnusedPlaceholders html = replace_all unused_rx [] html"

section \<open>The compiler (\<open>compiler.js\<close>)\<close>

text \<open>
  The file system and Node's \<open>path\<close> module are the environment of a compile:
  \<open>html_file p\<close> is the text of the file at \<open>p\<close> when \<open>fs.access\<close> and
  \<open>fs.readFile\<close> succeed there, \<open>js_module p\<close> the export
  (\<open>module.default || module\<close>) of the module at \<open>p\<close> when the import succeeds.
  A callable export is a function from the props to the string it returns, or to
  \<open>None\<close> when it throws; any other export is kept as the string \<open>String\<close> makes of it.
\<close>

datatype component_export = Callable "obj \<Rightarrow> string option" | NotCallable string

record env =
  html_file :: "string \<Rightarrow> string option"
  js_module :: "string \<Rightarrow> component_export option"
  path_join :: "string list \<Rightarrow> string"
  path_dirname :: "string \<Rightarrow> string"

definition normalize_name :: "string \<Rightarrow> string" where
  \<comment> \<open>\<open>name.replace(/\\/g, '/')\<close>\<close>
  "normalize_name name = map (\<lambda>c. if c = CHR 0x5C then CHR ''/'' else c) name"

definition possiblePaths :: "env \<Rightarrow> string \<Rightarrow> string \<Rightarrow> string \<Rightarrow> string list" where
  "possiblePaths e name root projectRoot =
     (let normalizedName = normalize_name name in
      [path_join e [root, ''components'', normalizedName @ ''.html''],
       path_join e [projectRoot, ''src'', ''components'', normalizedName @ ''.html''],
       path_join e [projectRoot, ''components'', normalizedName @ ''.html'']])"

fun load_from :: "env \<Rightarrow> obj \<Rightarrow> string list \<Rightarrow> string option" where
  \<comment> \<open>the loop over \<open>possiblePaths\<close>\<close>
  "load_from e attrs [] = None"
| "load_from e attrs (componentPath # paths) =
     (case html_file e componentPath of
        Some content \<Rightarrow> Some content
      | None \<Rightarrow>
          (let jsPath = replace_str ''.html'' ''.js'' componentPath in
           case js_module e jsPath of
             None \<Rightarrow> load_from e attrs paths
           | Some (NotCallable v) \<Rightarrow> Some v
           | Some (Callable f) \<Rightarrow>
               (case f (obj_delete ''name'' (obj_delete ''src'' attrs)) of
                  Some out \<Rightarrow> Some out
                | None \<Rightarrow> load_from e attrs paths)))"

definition loadComponent :: "env \<Rightarrow> string \<Rightarrow> string \<Rightarrow> string \<Rightarrow> obj \<Rightarrow> string option" where
  "loadComponent e name root projectRoot attrs =
     load_from e attrs (possiblePaths e name root projectRoot)"

definition word_attr_rx :: regex where
  \<comment> \<open>\<open>/(\w+)="([^"]*)"/g\<close>\<close>
  \<open>word_attr_rx =
     [Rep Greedy is_word 1 True, Lit [CHR ''='', CHR 0x22],
      Rep Greedy (not_char (CHR 0x22)) 0 True, Lit [CHR 0x22]]\<close>

definition parseAttributes :: "string \<Rightarrow> obj" where
  "parseAttributes attrsStr = attrs_of (match_all word_attr_rx attrsStr)"

definition placeholder_rx :: "string \<Rightarrow> regex" where
  \<comment> \<open>\<open>new RegExp(`\\{\\{\\s*${key}\\s*\\}\\}`, 'g')\<close>; a key is made of word
      characters and hyphens, which stand for themselves in a pattern\<close>
  "placeholder_rx key =
     [Lit ''{{'', Rep Greedy is_space 0 False, Lit key, Rep Greedy is_space 0 False, Lit ''}}'']"

definition not_found :: "string \<Rightarrow> string" where
  \<comment> \<open>\<open>`<!-- Component "${name}" not found -->`\<close>\<close>
  \<open>not_found name = ''<!-- Component '' @ [CHR 0x22] @ name @ [CHR 0x22] @ '' not found -->''\<close>

definition children_rx :: regex where
  \<comment> \<open>\<open>/<Component\s+name="([^"]+)"([^>]*)>([\s\S]*?)<\/Component>/g\<close>\<close>
  \<open>children_rx =
     [Lit ''<Component'', Rep Greedy is_space 1 False, Lit (''name='' @ [CHR 0x22]),
      Rep Greedy (not_char (CHR 0x22)) 1 True, Lit [CHR 0x22],
      Rep Greedy (not_char CHR ''>'') 0 True, Lit ''>'',
      Rep Lazy any_char 0 True, Lit ''</Component>'']\<close>

definition self_closing_rx :: regex where
  \<comment> \<open>\<open>/<Component[^>]+\/>/g\<close>\<close>
  "self_closing_rx = [Lit ''<Component'', Rep Greedy (not_char CHR ''>'') 1 False, Lit ''/>'']"

definition bind_children :: "string \<Rightarrow> obj \<Rightarrow> string \<Rightarrow> string" where
  \<comment> \<open>lines 56 to 61: the children, then the props in the order of \<open>Object.entries\<close>\<close>
  "bind_children children attrs componentContent =
     foldl (\<lambda>content kv. replace_all (placeholder_rx (fst kv)) (snd kv) content)
       (replace_all (placeholder_rx ''children'') children componentContent)
       (object_entries attrs)"

definition children_step ::
  "(string \<Rightarrow> (error + string) option) \<Rightarrow> env \<Rightarrow> string \<Rightarrow> string \<Rightarrow> string
     \<Rightarrow> string \<times> string list \<Rightarrow> (error + string) option" where
  \<comment> \<open>one turn of the loop of \<open>processComponentsWithChildren\<close>; \<open>compile\<close> is the
      recursive call of \<open>compileHtml\<close>\<close>
  "children_step compile e root projectRoot result mc =
     (case mc of
        (fullTag, [componentName, attrsStr, body]) \<Rightarrow>
          (let children = trim body;
               attrs = parseAttributes attrsStr
           in case loadComponent e componentName root projectRoot attrs of
                None \<Rightarrow> Some (Inr (replace_str fullTag (not_found componentName) result))
              | Some componentContent \<Rightarrow>
                  (case compile (bind_children children attrs componentContent) of
                     None \<Rightarrow> None
                   | Some (Inl err) \<Rightarrow> Some (Inl err)
                   | Some (Inr compiledComponent) \<Rightarrow>
                       Some (Inr (replace_str fullTag compiledComponent result))))
      | _ \<Rightarrow> Some (Inr result))"

definition bind_prop :: "obj \<Rightarrow> string \<Rightarrow> string \<times> string \<Rightarrow> error + string" where
  \<comment> \<open>the body of the loop of lines 99 to 105\<close>
  "bind_prop variants componentContent kv =
     (let key = fst kv; value = snd kv in
      if key = ''variant'' \<and> truthy (obj_lookup variants value)
      then replace_value (placeholder_rx ''variantClasses'') (obj_lookup variants value) componentContent
      else if key \<noteq> ''src'' \<and> key \<noteq> ''variant''
      then Inr (replace_all (placeholder_rx key) value componentContent)
      else Inr componentContent)"

fun bind_props :: "obj \<Rightarrow> (string \<times> string) list \<Rightarrow> string \<Rightarrow> error + string" where
  \<comment> \<open>the loop of lines 99 to 105, which a throwing replacement leaves\<close>
  "bind_props variants [] componentContent = Inr componentContent"
| "bind_props variants (kv # kvs) componentContent =
     (case bind_prop variants componentContent kv of
        Inl err \<Rightarrow> Inl err
      | Inr content \<Rightarrow> bind_props variants kvs content)"

definition bind_self_closing :: "obj \<Rightarrow> string \<Rightarrow> error + string" where
  \<comment> \<open>lines 96 to 108\<close>
  "bind_self_closing attrs componentContent =
     (let variants = parseVariants componentContent in
      case bind_props variants (object_entries attrs) componentContent of
        Inl err \<Rightarrow> Inl err
      | Inr content \<Rightarrow> Inr (replace_all (placeholder_rx ''variantClasses'') [] content))"

definition self_closing_step ::
  "(string \<Rightarrow> (error + string) option) \<Rightarrow> env \<Rightarrow> string \<Rightarrow> string \<Rightarrow> string
     \<Rightarrow> string \<times> string list \<Rightarrow> (error + string) option" where
  \<comment> \<open>one turn of the loop of \<open>processSelfClosingComponents\<close>; \<open>!attrs.src\<close> holds
      for a missing and for an empty \<open>src\<close> (\<open>Object.prototype\<close> has no \<open>src\<close>)\<close>
  "self_closing_step compile e root projectRoot result mc =
     (let tag = fst mc in
      case parseSelfClosingComponentTag tag of
        None \<Rightarrow> Some (Inr result)
      | Some attrs \<Rightarrow>
          (case obj_get attrs ''src'' of
             None \<Rightarrow> Some (Inr result)
           | Some name \<Rightarrow>
               if name = [] then Some (Inr result)
               else
                 (case loadComponent e name root projectRoot attrs of
                    None \<Rightarrow> Some (Inr (replace_str tag (not_found name) result))
                  | Some componentContent \<Rightarrow>
                      (case bind_self_closing attrs componentContent of
                         Inl err \<Rightarrow> Some (Inl err)
                       | Inr bound \<Rightarrow>
                           (case compile bound of
                              None \<Rightarrow> None
                            | Some (Inl err) \<Rightarrow> Some (Inl err)
                            | Some (Inr compiledComponent) \<Rightarrow>
                                Some (Inr (replace_str tag compiledComponent result)))))))"

definition no_src :: "string \<Rightarrow> bool" where
  \<comment> \<open>the guard \<open>!attrs || !attrs.src\<close> of line 84\<close>
  "no_src tag =
     (case parseSelfClosingComponentTag tag of
        None \<Rightarrow> True
      | Some attrs \<Rightarrow> (case obj_get attrs ''src'' of None \<Rightarrow> True | Some name \<Rightarrow> name = []))"

text \<open>
  A loop over the matches threads \<open>result\<close> through its turns; a turn whose recursive
  compile does not return ends the loop with \<open>None\<close>, and a turn that throws ends it
  with the error.
\<close>

fun run_matches ::
  "(string \<Rightarrow> 'm \<Rightarrow> (error + string) option) \<Rightarrow> 'm list \<Rightarrow> string \<Rightarrow> (error + string) option" where
  "run_matches step [] result = Some (Inr result)"
| "run_matches step (m # ms) result =
     (case step result m of
        None \<Rightarrow> None
      | Some (Inl err) \<Rightarrow> Some (Inl err)
      | Some (Inr result') \<Rightarrow> run_matches step ms result')"

definition processComponentsWithChildren ::
  "(string \<Rightarrow> (error + string) option) \<Rightarrow> env \<Rightarrow> string \<Rightarrow> string \<Rightarrow> string
     \<Rightarrow> (error + string) option" where
  "processComponentsWithChildren compile e html root projectRoot =
     run_matches (children_step compile e root projectRoot) (match_all children_rx html) html"

definition processSelfClosingComponents ::
  "(string \<Rightarrow> (error + string) option) \<Rightarrow> env \<Rightarrow> string \<Rightarrow> string \<Rightarrow> string
     \<Rightarrow> (error + string) option" where
  "processSelfClosingComponents compile e html root projectRoot =
     run_matches (self_closing_step compile e root projectRoot) (match_all self_closing_rx html) html"

text \<open>
  \<open>compileHtml\<close> calls itself on the content of every component it finds, and a
  component that includes itself makes it run forever. The first argument bounds the
  depth of these calls: \<open>None\<close> says that the bound was reached, \<open>Some (Inr out)\<close>
  that the compile returned \<open>out\<close>, \<open>Some (Inl TypeError)\<close> that it threw.
  \<open>projectRoot\<close> is \<open>None\<close> when the argument is absent or \<open>null\<close>; the empty string
  is falsy as well.
\<close>

definition effectiveProjectRoot :: "env \<Rightarrow> string \<Rightarrow> string option \<Rightarrow> string" where
  \<comment> \<open>\<open>projectRoot || path.dirname(root)\<close>\<close>
  "effectiveProjectRoot e root projectRoot =
     (case projectRoot of
        None \<Rightarrow> path_dirname e root
      | Some p \<Rightarrow> if p = [] then path_dirname e root else p)"

fun compileHtml ::
  "nat \<Rightarrow> env \<Rightarrow> string \<Rightarrow> string \<Rightarrow> string option \<Rightarrow> (error + string) option" where
  "compileHtml 0 e html root projectRoot = None"
| "compileHtml (Suc depth) e html root projectRoot =
     (let epr = effectiveProjectRoot e root projectRoot;
          compile = (\<lambda>content. compileHtml depth e content root (Some epr))
      in case processComponentsWithChildren compile e html root epr of
           None \<Rightarrow> None
         | Some (Inl err) \<Rightarrow> Some (Inl err)
         | Some (Inr result) \<Rightarrow> processSelfClosingComponents compile e result root epr)"

definition str_includes :: "string \<Rightarrow> string \<Rightarrow> bool" where
  \<comment> \<open>\<open>s.includes(pat)\<close>, which the tests' \<open>toContain\<close> uses\<close>
  "str_includes pat s = (str_search pat s \<noteq> None)"

section \<open>A sample project\<close>

text \<open>
  A small project to run the engine on: paths are joined with a slash, the parent of a
  path is what stands before its last slash, and the components of the specification's
  examples are the files under \<open>site/src/components\<close>.
\<close>

definition sample_join :: "string list \<Rightarrow> string" where
  "sample_join parts = join_with CHR ''/'' parts"

definition sample_dirname :: "string \<Rightarrow> string" where
  "sample_dirname p = rev (drop 1 (dropWhile (\<lambda>c. c \<noteq> CHR ''/'') (rev p)))"

definition sample_env :: "(string \<times> string) list \<Rightarrow> (string \<times> component_export) list \<Rightarrow> env" where
  "sample_env files modules =
     \<lparr> html_file = map_of files, js_module = map_of modules,
       path_join = sample_join, path_dirname = sample_dirname \<rparr>"

definition site_files :: "(string \<times> string) list" where
  \<open>site_files =
     [(''site/src/components/Card.html'', ''<div>{{ title }}{{ children }}</div>''),
      (''site/src/components/Box.html'', ''<div>{{ children }}</div>''),
      (''site/src/components/Button.html'',
         ''<!-- variants: primary=btn-primary --><a class="{{ variantClasses }}">{{ text }}</a>'')]\<close>

definition site_env :: env where
  "site_env = sample_env site_files []"

definition clock_module :: component_export where
  "clock_module =
     Callable (\<lambda>props. Some (''<time>'' @ (case obj_get props ''zone'' of None \<Rightarrow> ''utc'' | Some z \<Rightarrow> z)
                               @ ''</time>''))"

section \<open>Notions to state the properties with\<close>

text \<open>
  \<open>continue_with r cap s k\<close> is the rest of a match after a class has taken the
  first \<open>k\<close> characters of \<open>s\<close>.
\<close>

definition continue_with :: "regex \<Rightarrow> bool \<Rightarrow> string \<Rightarrow> nat \<Rightarrow> (string list \<times> string) option" where
  "continue_with r cap s k =
     (case match_here r (drop k s) of
        None \<Rightarrow> None
      | Some (caps, rest) \<Rightarrow> Some ((if cap then [take k s] else []) @ caps, rest))"


text \<open>
  The specification's account of the resolver, to compare \<open>loadComponent\<close> with: at
  each of the three candidate paths in turn, the markup file if there is one, and
  otherwise the module at the same path stem with the extension \<open>.js\<close>.
\<close>

definition js_path :: "string \<Rightarrow> string" where
  \<comment> \<open>the stem of a path that ends in \<open>.html\<close>, with the extension \<open>.js\<close>\<close>
  "js_path componentPath = take (length componentPath - 5) componentPath @ ''.js''"

fun resolve_from :: "env \<Rightarrow> obj \<Rightarrow> string list \<Rightarrow> string option" where
  "resolve_from e props [] = None"
| "resolve_from e props (markupPath # paths) =
     (case html_file e markupPath of
        Some content \<Rightarrow> Some content
      | None \<Rightarrow>
          (case js_module e (js_path markupPath) of
             None \<Rightarrow> resolve_from e props paths
           | Some (NotCallable v) \<Rightarrow> Some v
           | Some (Callable f) \<Rightarrow>
               (case f (obj_delete ''name'' (obj_delete ''src'' props)) of
                  Some out \<Rightarrow> Some out
                | None \<Rightarrow> resolve_from e props paths)))"

text \<open>
  The specification's account of the table, to compare \<open>parseVariants\<close> with: the body
  of the directive is split on commas, each pair at its first \<open>=\<close>, and the pairs with
  an empty side are dropped. \<open>variant_table\<close> drops a pair when a side is empty as it
  stands, \<open>spec_variant_table\<close> when a side is empty after trimming, which is what the
  specification says.
\<close>

definition split_first :: "char \<Rightarrow> string \<Rightarrow> string \<times> string" where
  "split_first d s = (takeWhile (\<lambda>c. c \<noteq> d) s, drop 1 (dropWhile (\<lambda>c. c \<noteq> d) s))"

definition variant_table :: "string \<Rightarrow> obj" where
  "variant_table body =
     foldl (\<lambda>table (name, classes).
              if name \<noteq> [] \<and> classes \<noteq> [] then obj_set (trim name) (trim classes) table else table)
       [] (map (split_first CHR ''='') (split_on CHR '','' body))"

definition spec_variant_table :: "string \<Rightarrow> obj" where
  "spec_variant_table body =
     foldl (\<lambda>table (name, classes).
              if trim name \<noteq> [] \<and> trim classes \<noteq> [] then obj_set (trim name) (trim classes) table
              else table)
       [] (map (split_first CHR ''='') (split_on CHR '','' body))"

text \<open>
  The specification's account of the binders, to compare the code with: \<open>splice_all\<close>
  puts the value, as it is written, in the place of every match of the placeholder.
\<close>

function splice_all :: "regex \<Rightarrow> string \<Rightarrow> string \<Rightarrow> string" where
  "splice_all r v s =
     (case rx_search r s of
        None \<Rightarrow> s
      | Some (pre, m, caps, rest) \<Rightarrow>
          pre @ v @
            (if m = [] then (case rest of [] \<Rightarrow> [] | c # t \<Rightarrow> c # splice_all r v t)
             else splice_all r v rest))"
  by pat_completeness auto
termination
  by (relation "measure (\<lambda>(r, v, s). length s)") (auto dest!: rx_search_length)

declare splice_all.simps [simp del]

definition spec_bind_children :: "string \<Rightarrow> obj \<Rightarrow> string \<Rightarrow> string" where
  "spec_bind_children children props content =
     foldl (\<lambda>content kv. splice_all (placeholder_rx (fst kv)) (snd kv) content)
       (splice_all (placeholder_rx ''children'') children content)
       (object_entries props)"

definition spec_bind_prop :: "obj \<Rightarrow> string \<Rightarrow> string \<times> string \<Rightarrow> string" where
  "spec_bind_prop variants content kv =
     (if fst kv = ''variant'' then
        (case obj_get variants (snd kv) of
           None \<Rightarrow> content
         | Some cls \<Rightarrow>
             if cls = [] then content else splice_all (placeholder_rx ''variantClasses'') cls content)
      else if fst kv = ''src'' then content
      else splice_all (placeholder_rx (fst kv)) (snd kv) content)"

definition spec_bind_self_closing :: "obj \<Rightarrow> string \<Rightarrow> string" where
  "spec_bind_self_closing props content =
     splice_all (placeholder_rx ''variantClasses'') []
       (foldl (spec_bind_prop (parseVariants content)) content (object_entries props))"

text \<open>
  The specification's account of the cleanup, to compare \<open>cleanUnusedPlaceholders\<close>
  with: a placeholder is \<open>{{\<close>, white space, a name of one or more word characters,
  white space and \<open>}}\<close>. \<open>placeholder_end s\<close> is what follows the placeholder that \<open>s\<close>
  starts with, if it starts with one, and \<open>strip_placeholders\<close> reads a text from left to
  right, leaves out every placeholder it comes to and keeps every other character.
\<close>

definition placeholder_end :: "string \<Rightarrow> string option" where
  "placeholder_end s =
     (if prefix ''{{'' s then
        (let s1 = dropWhile is_space (drop 2 s);
             name = takeWhile is_word s1;
             s2 = dropWhile is_space (dropWhile is_word s1)
         in if name \<noteq> [] \<and> prefix ''}}'' s2 then Some (drop 2 s2) else None)
      else None)"

lemma placeholder_end_shorter:
  assumes "placeholder_end s = Some rest"
  shows "length rest < length s"
proof -
  let ?s1 = "dropWhile is_space (drop 2 s)"
  from assms have rest: "rest = drop 2 (dropWhile is_space (dropWhile is_word ?s1))"
    and s: "prefix ''{{'' s"
    by (auto simp: placeholder_end_def Let_def split: if_splits)
  from s have "2 \<le> length s"
    by (auto simp: prefix_def)
  moreover have "length rest \<le> length (dropWhile is_space (dropWhile is_word ?s1))"
    unfolding rest by simp
  moreover have "length (dropWhile is_space (dropWhile is_word ?s1)) \<le> length (dropWhile is_word ?s1)"
    by (rule length_dropWhile_le)
  moreover have "length (dropWhile is_word ?s1) \<le> length ?s1"
    by (rule length_dropWhile_le)
  moreover have "length ?s1 \<le> length (drop 2 s)"
    by (rule length_dropWhile_le)
  ultimately show ?thesis by simp
qed

function strip_placeholders :: "string \<Rightarrow> string" where
  "strip_placeholders s =
     (case s of
        [] \<Rightarrow> []
      | c # t \<Rightarrow>
          (case placeholder_end s of
             Some rest \<Rightarrow> strip_placeholders rest
           | None \<Rightarrow> c # strip_placeholders t))"
  by pat_completeness auto
termination
  by (relation "measure length") (auto dest: placeholder_end_shorter)

declare strip_placeholders.simps [simp del]

text \<open>
  A document, for the statements about whole documents, is a list of parts: texts,
  self-closing references written \<open><Component src="\<dots>/>\<close> and child-bearing references
  written \<open><Component name="N"A>B</Component>\<close>. \<open>source\<close> is a part as the document
  has it. A self-closing reference is well formed when no \<open>>\<close> and no \<open><Component\<close>
  stands between its \<open>src="\<close> and its \<open>/>\<close>; a child-bearing one when its name is not
  empty and has no quote, its attributes have no \<open>>\<close> and its body has no
  \<open></Component>\<close>.
\<close>

datatype part = Text string | Self string | Slot string string string

fun source :: "part \<Rightarrow> string" where
  \<open>source (Text t) = t\<close>
| \<open>source (Self inner) = ''<Component src="'' @ inner @ ''/>''\<close>
| \<open>source (Slot name attrsStr body) =
     ''<Component name="'' @ name @ [CHR 0x22] @ attrsStr @ ''>'' @ body @ ''</Component>''\<close>

fun is_reference :: "part \<Rightarrow> bool" where
  "is_reference (Text t) = False"
| "is_reference (Self inner) = True"
| "is_reference (Slot name attrsStr body) = True"

fun well_formed :: "part \<Rightarrow> bool" where
  "well_formed (Text t) = True"
| "well_formed (Self inner) =
     (CHR ''>'' \<notin> set inner \<and> \<not> str_includes ''<Component'' inner)"
| "well_formed (Slot name attrsStr body) =
     (name \<noteq> [] \<and> CHR 0x22 \<notin> set name \<and> CHR ''>'' \<notin> set attrsStr
      \<and> \<not> str_includes ''</Component>'' body)"

text \<open>
  What a part is to become in the output, by the specification: a text stays; a reference
  that does not resolve becomes the not-found marker; a reference that resolves becomes
  its content, bound and recursively compiled. (A self-closing tag without a non-empty
  \<open>src\<close> is no reference and stays as it is written.)
\<close>

fun outcome ::
  "(string \<Rightarrow> (error + string) option) \<Rightarrow> env \<Rightarrow> string \<Rightarrow> string \<Rightarrow> part
     \<Rightarrow> (error + string) option" where
  "outcome compile e root projectRoot (Text t) = Some (Inr t)"
| "outcome compile e root projectRoot (Self inner) =
     (let tag = source (Self inner) in
      case parseSelfClosingComponentTag tag of
        None \<Rightarrow> Some (Inr tag)
      | Some attrs \<Rightarrow>
          (case obj_get attrs ''src'' of
             None \<Rightarrow> Some (Inr tag)
           | Some name \<Rightarrow>
               if name = [] then Some (Inr tag)
               else
                 (case loadComponent e name root projectRoot attrs of
                    None \<Rightarrow> Some (Inr (not_found name))
                  | Some content \<Rightarrow>
                      (case bind_self_closing attrs content of
                         Inl err \<Rightarrow> Some (Inl err)
                       | Inr bound \<Rightarrow> compile bound))))"
| "outcome compile e root projectRoot (Slot name attrsStr body) =
     (case loadComponent e name root projectRoot (parseAttributes attrsStr) of
        None \<Rightarrow> Some (Inr (not_found name))
      | Some content \<Rightarrow>
          compile (bind_children (trim body) (parseAttributes attrsStr) content))"

text \<open>
  \<open>starts_in w s\<close>: an occurrence of \<open>w\<close> starts somewhere in \<open>s\<close>, complete or cut off
  by the end of \<open>s\<close>. A text in which no \<open><Component\<close> starts has no component tag,
  whatever is written after it.
\<close>

fun starts_in :: "string \<Rightarrow> string \<Rightarrow> bool" where
  "starts_in w [] = False"
| "starts_in w (c # s) = (prefix w (c # s) \<or> prefix (c # s) w \<or> starts_in w s)"

text \<open>
  A pass, as its loop sees the document: pieces that the scan passes over and keeps, and
  matches with their captures and with what the turn of the match puts in their place.
\<close>

datatype piece = Keep string | Ref string "string list" string

fun written :: "piece \<Rightarrow> string" where
  "written (Keep s) = s"
| "written (Ref tag caps out) = tag"

fun rewritten :: "piece \<Rightarrow> string" where
  "rewritten (Keep s) = s"
| "rewritten (Ref tag caps out) = out"

fun hits :: "piece list \<Rightarrow> (string \<times> string list) list" where
  "hits [] = []"
| "hits (Keep s # ps) = hits ps"
| "hits (Ref tag caps out # ps) = (tag, caps) # hits ps"

text \<open>
  The child-bearing pass matches the child-bearing references and passes over everything
  else; the self-closing pass finds the texts, the self-closing references and what the
  first pass has put in the place of the child-bearing ones.
\<close>

fun first_view :: "part \<times> string \<Rightarrow> piece" where
  "first_view (Text t, out) = Keep t"
| "first_view (Self inner, out) = Keep (source (Self inner))"
| "first_view (Slot name attrsStr body, out) =
     Ref (source (Slot name attrsStr body)) [name, attrsStr, body] out"

fun second_view :: "part \<times> string \<Rightarrow> piece" where
  "second_view (Text t, out) = Keep t"
| "second_view (Self inner, out) = Ref (source (Self inner)) [] out"
| "second_view (Slot name attrsStr body, out) = Keep out"


section \<open>Properties of the matcher\<close>

lemma first_some_append:
  "first_some f (xs @ ys) = (case first_some f xs of Some y \<Rightarrow> Some y | None \<Rightarrow> first_some f ys)"
  by (induction xs) (auto split: option.splits)

lemma first_some_None:
  "(\<And>x. x \<in> set xs \<Longrightarrow> f x = None) \<Longrightarrow> first_some f xs = None"
  by (induction xs) auto

lemma first_some_pick:
  assumes "\<And>x. x \<in> set xs \<Longrightarrow> f x = None" and "f k = Some y"
  shows "first_some f (xs @ k # ys) = Some y"
  using assms by (simp add: first_some_append first_some_None)

lemma upt_split_at:
  assumes "lo \<le> k" and "k \<le> hi"
  shows "[lo..<Suc hi] = [lo..<k] @ k # [Suc k..<Suc hi]"
proof -
  have "[lo..<Suc hi] = [lo..<k] @ [k..<Suc hi]"
    using assms by (metis le_Suc_eq le_imp_less_Suc less_imp_le_nat upt_add_eq_append le_Suc_ex)
  moreover have "[k..<Suc hi] = k # [Suc k..<Suc hi]"
    using assms by (simp add: upt_conv_Cons)
  ultimately show ?thesis by simp
qed

lemma match_here_Rep:
  "match_here (Rep q p lo cap # r) s =
     first_some (continue_with r cap s) (counts q lo (length (takeWhile p s)))"
  by (simp add: continue_with_def [abs_def])

lemma match_greedy:
  assumes "lo \<le> k" and "k \<le> length (takeWhile p s)"
    and "match_here r (drop k s) = Some (caps, rest)"
    and "\<And>j. k < j \<Longrightarrow> j \<le> length (takeWhile p s) \<Longrightarrow> match_here r (drop j s) = None"
  shows "match_here (Rep Greedy p lo cap # r) s = Some ((if cap then [take k s] else []) @ caps, rest)"
proof -
  let ?hi = "length (takeWhile p s)"
  have "counts Greedy lo ?hi = rev [Suc k..<Suc ?hi] @ k # rev [lo..<k]"
    using upt_split_at [OF assms(1,2)] by (simp add: counts_def)
  moreover have "\<And>j. j \<in> set (rev [Suc k..<Suc ?hi]) \<Longrightarrow> continue_with r cap s j = None"
    using assms(4) by (auto simp: continue_with_def)
  moreover have "continue_with r cap s k = Some ((if cap then [take k s] else []) @ caps, rest)"
    using assms(3) by (simp add: continue_with_def)
  ultimately show ?thesis
    by (simp only: match_here_Rep first_some_pick)
qed

lemma match_lazy:
  assumes "lo \<le> k" and "k \<le> length (takeWhile p s)"
    and "match_here r (drop k s) = Some (caps, rest)"
    and "\<And>j. lo \<le> j \<Longrightarrow> j < k \<Longrightarrow> match_here r (drop j s) = None"
  shows "match_here (Rep Lazy p lo cap # r) s = Some ((if cap then [take k s] else []) @ caps, rest)"
proof -
  let ?hi = "length (takeWhile p s)"
  have "counts Lazy lo ?hi = [lo..<k] @ k # [Suc k..<Suc ?hi]"
    using upt_split_at [OF assms(1,2)] by (simp add: counts_def)
  moreover have "\<And>j. j \<in> set [lo..<k] \<Longrightarrow> continue_with r cap s j = None"
    using assms(4) by (auto simp: continue_with_def)
  moreover have "continue_with r cap s k = Some ((if cap then [take k s] else []) @ caps, rest)"
    using assms(3) by (simp add: continue_with_def)
  ultimately show ?thesis
    by (simp only: match_here_Rep first_some_pick)
qed

lemma match_here_Rep_None:
  assumes "\<And>j. lo \<le> j \<Longrightarrow> j \<le> length (takeWhile p s) \<Longrightarrow> match_here r (drop j s) = None"
  shows "match_here (Rep q p lo cap # r) s = None"
proof -
  have "\<And>j. j \<in> set (counts q lo (length (takeWhile p s))) \<Longrightarrow> continue_with r cap s j = None"
    using assms by (cases q) (auto simp: counts_def continue_with_def)
  then show ?thesis
    by (simp only: match_here_Rep first_some_None)
qed

lemma match_greedy_all:
  assumes "list_all p w" and "lo \<le> length w" and "s = [] \<or> \<not> p (hd s)"
    and "match_here r s = Some (caps, rest)"
  shows "match_here (Rep Greedy p lo cap # r) (w @ s) = Some ((if cap then [w] else []) @ caps, rest)"
proof -
  have tw: "takeWhile p (w @ s) = w"
    using assms(1,3) by (cases s) (auto simp: list_all_iff)
  show ?thesis
    using match_greedy [of lo "length w" p "w @ s" r caps rest cap] assms(2,4)
    by (simp add: tw)
qed

lemma match_greedy_back:
  assumes "list_all p (w @ v)" and "lo \<le> length w" and "s = [] \<or> \<not> p (hd s)"
    and "match_here r (v @ s) = Some (caps, rest)"
    and "\<And>j. 0 < j \<Longrightarrow> j \<le> length v \<Longrightarrow> match_here r (drop j (v @ s)) = None"
  shows "match_here (Rep Greedy p lo cap # r) (w @ v @ s) = Some ((if cap then [w] else []) @ caps, rest)"
proof -
  have tw: "takeWhile p (w @ v @ s) = w @ v"
    using assms(1,3) by (cases s) (auto simp: list_all_iff)
  have "match_here r (drop j (w @ v @ s)) = None" if "length w < j" "j \<le> length (w @ v)" for j
  proof -
    have "drop j (w @ v @ s) = drop (j - length w) (v @ s)"
      using that by simp
    then show ?thesis
      using assms(5) [of "j - length w"] that by simp
  qed
  then show ?thesis
    using match_greedy [of lo "length w" p "w @ v @ s" r caps rest cap] assms(2,4)
    by (simp add: tw)
qed

lemma match_here_Lit_app [simp]:
  "match_here (Lit l # r) (l @ s) = match_here r s"
  by simp

lemma match_here_Lit_fail:
  "\<not> prefix l s \<Longrightarrow> match_here (Lit l # r) s = None"
  by simp

lemma rx_search_hit:
  "match_here r s = Some (caps, rest) \<Longrightarrow>
     rx_search r s = Some ([], take (length s - length rest) s, caps, rest)"
  by (simp add: rx_search.simps [of r s])

lemma rx_search_miss:
  "match_here r (c # t) = None \<Longrightarrow>
     rx_search r (c # t) =
       (case rx_search r t of None \<Rightarrow> None | Some (pre, m, caps, rest) \<Rightarrow> Some (c # pre, m, caps, rest))"
  by (simp add: rx_search.simps [of r "c # t"])

lemma rx_search_Nil:
  "rx_search r [] = (case match_here r [] of None \<Rightarrow> None | Some (caps, rest) \<Rightarrow> Some ([], [], caps, rest))"
  by (auto simp add: rx_search.simps [of r "[]"] split: option.splits dest: match_here_suffix)

lemma str_search_None_iff:
  "str_search pat s = None \<longleftrightarrow> (\<forall>t. suffix t s \<longrightarrow> \<not> prefix pat t)"
proof (induction s)
  case Nil
  then show ?case by (simp add: str_search.simps [of pat "[]"])
next
  case (Cons c s)
  have "str_search pat (c # s) = None \<longleftrightarrow> \<not> prefix pat (c # s) \<and> str_search pat s = None"
    by (auto simp: str_search.simps [of pat "c # s"] split: option.splits)
  also have "\<dots> \<longleftrightarrow> (\<forall>t. suffix t (c # s) \<longrightarrow> \<not> prefix pat t)"
    unfolding Cons by (auto simp: suffix_Cons)
  finally show ?case .
qed

lemma rx_search_no_literal:
  assumes "\<not> str_includes l s"
  shows "rx_search (Lit l # r) s = None"
proof -
  have "\<forall>t. suffix t s \<longrightarrow> \<not> prefix l t"
    using assms by (simp add: str_includes_def str_search_None_iff)
  then show ?thesis
  proof (induction s)
    case Nil
    then show ?case by (simp add: rx_search_Nil)
  next
    case (Cons c s)
    then have "match_here (Lit l # r) (c # s) = None"
      by (simp add: suffix_order.refl)
    moreover have "rx_search (Lit l # r) s = None"
      using Cons by (simp add: suffix_Cons)
    ultimately show ?case by (simp add: rx_search_miss)
  qed
qed

lemma get_substitution_plain:
  "CHR ''$'' \<notin> set repl \<Longrightarrow> get_substitution m b a repl = repl"
  by (induction m b a repl rule: get_substitution.induct) auto

lemma match_all_None:
  "rx_search r s = None \<Longrightarrow> match_all r s = []"
  by (simp add: match_all.simps [of r s])

lemma rx_replace_all_None:
  "rx_search r s = None \<Longrightarrow> rx_replace_all r repl seen s = s"
  by (simp add: rx_replace_all.simps [of r repl seen s])

lemma rx_search_match_here:
  "rx_search r s = Some (pre, m, caps, rest) \<Longrightarrow> match_here r (m @ rest) = Some (caps, rest)"
proof (induction s arbitrary: pre)
  case Nil
  then have "match_here r [] = Some (caps, rest)" "m = []"
    by (auto simp: rx_search_Nil split: option.splits)
  moreover from this have "rest = []"
    using match_here_suffix by fastforce
  ultimately show ?case by simp
next
  case (Cons c t)
  show ?case
  proof (cases "match_here r (c # t)")
    case None
    with Cons show ?thesis
      by (auto simp: rx_search_miss split: option.splits)
  next
    case (Some a)
    obtain caps' rest' where a: "a = (caps', rest')" by (cases a)
    from Some a Cons.prems have eq: "caps' = caps" "rest' = rest" "pre = []"
      by (simp_all add: rx_search_hit)
    with rx_search_decomp [OF Cons.prems] have "c # t = m @ rest" by simp
    with Some a eq show ?thesis by simp
  qed
qed

lemma word_not_space: "is_word c \<Longrightarrow> \<not> is_space c"
  by (auto simp: is_word_def is_space_def Let_def)

lemma brace_not_word: "\<not> is_word CHR ''}''" "\<not> is_space CHR ''}''"
  by (simp_all add: is_word_def is_space_def)

lemma rx_replace_all_seen:
  "CHR ''$'' \<notin> set repl \<Longrightarrow> rx_replace_all r repl seen s = rx_replace_all r repl seen' s"
proof (induction r repl seen s arbitrary: seen' rule: rx_replace_all.induct)
  case (1 r repl seen s)
  show ?case
  proof (cases "rx_search r s")
    case None
    then show ?thesis by (simp add: rx_replace_all_None)
  next
    case (Some a)
    obtain pre m caps rest where a: "a = (pre, m, caps, rest)" by (cases a)
    show ?thesis
    proof (cases "m = []")
      case True
      show ?thesis
      proof (cases rest)
        case Nil
        with True Some a "1.prems" show ?thesis
          by (simp add: rx_replace_all.simps [of r repl _ s] get_substitution_plain)
      next
        case (Cons c t)
        with True Some a "1.prems" "1.IH"(1) [OF Some a [symmetric] refl refl True Cons "1.prems", of "seen' @ pre @ [c]"]
        show ?thesis
          by (simp add: rx_replace_all.simps [of r repl _ s] get_substitution_plain)
      qed
    next
      case False
      with Some a "1.prems" "1.IH"(2) [OF Some a [symmetric] refl refl False "1.prems", of "seen' @ pre @ m"]
      show ?thesis
        by (simp add: rx_replace_all.simps [of r repl _ s] get_substitution_plain)
    qed
  qed
qed

lemma replace_all_step:
  assumes "rx_search r s = Some (pre, m, caps, rest)" and "m \<noteq> []" and "CHR ''$'' \<notin> set repl"
  shows "replace_all r repl s = pre @ repl @ replace_all r repl rest"
  using assms rx_replace_all_seen [OF assms(3), of r "pre @ m" rest "[]"]
  by (simp add: replace_all_def rx_replace_all.simps [of r repl "[]" s] get_substitution_plain)

lemma replace_all_None:
  "rx_search r s = None \<Longrightarrow> replace_all r repl s = s"
  by (simp add: replace_all_def rx_replace_all_None)

lemma space_not_word: "is_space c \<Longrightarrow> \<not> is_word c"
  using word_not_space by blast

lemma rx_search_hit_app:
  "match_here r (m @ rest) = Some (caps, rest) \<Longrightarrow> rx_search r (m @ rest) = Some ([], m, caps, rest)"
  by (simp add: rx_search_hit)

lemma match_all_step:
  "rx_search r s = Some (pre, m, caps, rest) \<Longrightarrow> m \<noteq> [] \<Longrightarrow>
     match_all r s = (m, caps) # match_all r rest"
  by (simp add: match_all.simps [of r s])

lemma str_search_hit: "str_search pat (pat @ s) = Some ([], s)"
  by (simp add: str_search.simps [of pat "pat @ s"])

lemma not_char_facts:
  "\<not> not_char c c" "list_all (not_char c) s \<longleftrightarrow> c \<notin> set s"
  by (auto simp: not_char_def list_all_iff)

lemma str_includes_Cons:
  "str_includes pat (x # xs) \<longleftrightarrow> prefix pat (x # xs) \<or> str_includes pat xs"
  by (auto simp: str_includes_def str_search.simps [of pat "x # xs"] split: option.splits)

lemma str_includes_Nil: "str_includes pat [] \<longleftrightarrow> pat = []"
  by (simp add: str_includes_def str_search.simps [of pat "[]"])

lemma takeWhile_short:
  assumes "xs \<noteq> []" and "\<not> P (last xs)"
  shows "length (takeWhile P (xs @ ys)) < length xs"
proof -
  have ex: "\<exists>x \<in> set xs. \<not> P x"
    using assms last_in_set by blast
  then have "takeWhile P (xs @ ys) = takeWhile P xs"
    by (auto simp: takeWhile_append1)
  moreover have "takeWhile P xs \<noteq> xs"
    using ex by (metis set_takeWhileD)
  then have "length (takeWhile P xs) < length xs"
    by (metis length_takeWhile_le takeWhile_eq_take take_all_iff le_neq_implies_less)
  ultimately show ?thesis by simp
qed

lemma space_facts: "\<not> is_space CHR ''v''" "\<not> is_space CHR ''-''" "\<not> is_space CHR ''>''"
  by (simp_all add: is_space_def)



section \<open>Where a tag can start\<close>

lemma prefix_app_cases:
  "prefix w (a @ b) \<Longrightarrow> prefix w a \<or> prefix a w"
  using prefix_same_cases [of w "a @ b" a] by auto

lemma starts_in_append:
  "\<not> starts_in w a \<Longrightarrow> \<not> starts_in w b \<Longrightarrow> \<not> starts_in w (a @ b)"
proof (induction a)
  case Nil
  then show ?case by simp
next
  case (Cons x a)
  from Cons.prems(1) have 1: "\<not> prefix w (x # a)" "\<not> prefix (x # a) w" "\<not> starts_in w a"
    by simp_all
  have "\<not> prefix w ((x # a) @ b)"
    using 1(1,2) prefix_app_cases by blast
  moreover have "\<not> prefix ((x # a) @ b) w"
    using 1(2) append_prefixD by blast
  ultimately show ?case
    using Cons.IH [OF 1(3) Cons.prems(2)] by simp
qed


lemma starts_in_longer:
  "starts_in (w @ v) s \<Longrightarrow> starts_in w s"
proof (induction s)
  case Nil
  then show ?case by simp
next
  case (Cons c s)
  have "prefix (w @ v) (c # s) \<Longrightarrow> prefix w (c # s)"
    using append_prefixD by blast
  moreover have "prefix (c # s) (w @ v) \<Longrightarrow> prefix (c # s) w \<or> prefix w (c # s)"
    by (auto simp: prefix_append)
  ultimately show ?case
    using Cons by auto
qed


lemma starts_in_skip:
  "c \<notin> set pre \<Longrightarrow> starts_in (c # w) (pre @ s) = starts_in (c # w) s"
  by (induction pre) auto


lemma starts_in_sealed:
  assumes "\<not> str_includes w s" and "c \<notin> set w" and "\<not> starts_in w t"
  shows "\<not> starts_in w (s @ c # t)"
  using assms(1)
proof (induction s)
  case Nil
  have "\<not> prefix w (c # t)"
  proof
    assume "prefix w (c # t)"
    then have "w = [] \<or> hd w = c"
      by (cases w) auto
    with Nil assms(2) show False
      by (cases w) (auto simp: str_includes_Nil)
  qed
  moreover have "\<not> prefix (c # t) w"
    using assms(2) by (auto simp: prefix_def)
  ultimately show ?case
    using assms(3) by simp
next
  case (Cons x s)
  from Cons.prems have 1: "\<not> prefix w (x # s)" "\<not> str_includes w s"
    by (simp_all add: str_includes_Cons)
  have "\<not> prefix w ((x # s) @ c # t)"
  proof
    assume "prefix w ((x # s) @ c # t)"
    then consider "prefix w (x # s)" | us where "w = (x # s) @ us" "prefix us (c # t)"
      unfolding prefix_append by blast
    then show False
    proof cases
      case 1
      with \<open>\<not> prefix w (x # s)\<close> show ?thesis by simp
    next
      case 2
      show ?thesis
      proof (cases us)
        case Nil
        with 2 \<open>\<not> prefix w (x # s)\<close> show ?thesis by simp
      next
        case (Cons u us')
        with 2 have "u = c" by simp
        with 2 Cons assms(2) show ?thesis by simp
      qed
    qed
  qed
  moreover have "\<not> prefix ((x # s) @ c # t) w"
    using assms(2) by (auto simp: prefix_def)
  ultimately show ?case
    using Cons.IH [OF 1(2)] by simp
qed

lemma str_search_starts_in:
  "\<not> starts_in w s \<Longrightarrow>
     str_search w (s @ x) = (case str_search w x of None \<Rightarrow> None | Some (b, a) \<Rightarrow> Some (s @ b, a))"
proof (induction s)
  case Nil
  then show ?case by (simp split: option.splits)
next
  case (Cons c s)
  from Cons.prems have 1: "\<not> prefix w (c # s)" "\<not> prefix (c # s) w" "\<not> starts_in w s"
    by simp_all
  have "\<not> prefix w ((c # s) @ x)"
    using 1(1,2) prefix_app_cases by blast
  then show ?case
    using Cons.IH [OF 1(3)] by (simp add: str_search.simps [of w "c # s @ x"] split: option.splits)
qed

lemma rx_search_starts_in:
  "\<not> starts_in w s \<Longrightarrow>
     rx_search (Lit w # r) (s @ x) =
       (case rx_search (Lit w # r) x of
          None \<Rightarrow> None
        | Some (p, m, caps, rest) \<Rightarrow> Some (s @ p, m, caps, rest))"
proof (induction s)
  case Nil
  then show ?case by (simp split: option.splits)
next
  case (Cons c s)
  from Cons.prems have 1: "\<not> prefix w (c # s)" "\<not> prefix (c # s) w" "\<not> starts_in w s"
    by simp_all
  have "\<not> prefix w ((c # s) @ x)"
    using 1(1,2) prefix_app_cases by blast
  then have "\<not> prefix w (c # s @ x)"
    by simp
  from match_here_Lit_fail [OF this]
  have "match_here (Lit w # r) (c # s @ x) = None" .
  then show ?case
    using Cons.IH [OF 1(3)] by (simp add: rx_search_miss split: option.splits)
qed

lemma match_all_pre:
  assumes "rx_search r (s @ x) =
       (case rx_search r x of
          None \<Rightarrow> None
        | Some (p, m, caps, rest) \<Rightarrow> Some (s @ p, m, caps, rest))"
  shows "match_all r (s @ x) = match_all r x"
  using assms
  by (simp add: match_all.simps [of r "s @ x"] match_all.simps [of r x] split: option.splits)

lemma replace_str_first:
  assumes "\<not> starts_in tag pre" and "CHR ''$'' \<notin> set out"
  shows "replace_str tag out (pre @ tag @ post) = pre @ out @ post"
  using str_search_starts_in [OF assms(1), of "tag @ post"] str_search_hit [of tag post]
  by (simp add: replace_str_def get_substitution_plain [OF assms(2)])

section \<open>A pass over a document\<close>

lemma run_pass:
  assumes step: "\<And>tag caps out result. Ref tag caps out \<in> set ps \<Longrightarrow>
      step result (tag, caps) = Some (Inr (replace_str tag out result))"
    and plain: "\<And>tag caps out. Ref tag caps out \<in> set ps \<Longrightarrow> CHR ''$'' \<notin> set out"
    and first: "\<And>tag caps out. Ref tag caps out \<in> set ps \<Longrightarrow> \<not> starts_in tag done"
    and later: "\<And>tag caps out q. Ref tag caps out \<in> set ps \<Longrightarrow> q \<in> set ps \<Longrightarrow>
      \<not> starts_in tag (rewritten q)"
  shows "run_matches step (hits ps) (done @ concat (map written ps))
       = Some (Inr (done @ concat (map rewritten ps)))"
  using assms
proof (induction ps arbitrary: "done")
  case Nil
  then show ?case by simp
next
  case (Cons p ps)
  show ?case
  proof (cases p)
    case (Keep s)
    have "run_matches step (hits ps) ((done @ s) @ concat (map written ps))
       = Some (Inr ((done @ s) @ concat (map rewritten ps)))"
    proof (rule Cons.IH)
      fix tag caps out
      assume r: "Ref tag caps out \<in> set ps"
      then show "CHR ''$'' \<notin> set out"
        using Cons.prems(2) by auto
      from r have "\<not> starts_in tag done" "\<not> starts_in tag (rewritten p)"
        using Cons.prems(3) [of tag caps out] Cons.prems(4) [of tag caps out p] by auto
      then show "\<not> starts_in tag (done @ s)"
        using Keep by (simp add: starts_in_append)
    next
      fix tag caps out result
      assume "Ref tag caps out \<in> set ps"
      then show "step result (tag, caps) = Some (Inr (replace_str tag out result))"
        using Cons.prems(1) by auto
    next
      fix tag caps out q
      assume "Ref tag caps out \<in> set ps" "q \<in> set ps"
      then show "\<not> starts_in tag (rewritten q)"
        using Cons.prems(4) [of tag caps out q] by auto
    qed
    with Keep show ?thesis by simp
  next
    case (Ref tag caps out)
    have 1: "step (done @ tag @ concat (map written ps)) (tag, caps)
        = Some (Inr (replace_str tag out (done @ tag @ concat (map written ps))))"
      using Cons.prems(1) [of tag caps out] Ref by simp
    have 2: "replace_str tag out (done @ tag @ concat (map written ps))
        = done @ out @ concat (map written ps)"
      using replace_str_first [of tag "done" out] Cons.prems(2) [of tag caps out]
        Cons.prems(3) [of tag caps out] Ref by simp
    have "run_matches step (hits ps) ((done @ out) @ concat (map written ps))
       = Some (Inr ((done @ out) @ concat (map rewritten ps)))"
    proof (rule Cons.IH)
      fix tag' caps' out'
      assume r: "Ref tag' caps' out' \<in> set ps"
      then show "CHR ''$'' \<notin> set out'"
        using Cons.prems(2) by auto
      from r have "\<not> starts_in tag' done" "\<not> starts_in tag' (rewritten p)"
        using Cons.prems(3) [of tag' caps' out'] Cons.prems(4) [of tag' caps' out' p] by auto
      then show "\<not> starts_in tag' (done @ out)"
        using Ref by (simp add: starts_in_append)
    next
      fix tag' caps' out' result
      assume "Ref tag' caps' out' \<in> set ps"
      then show "step result (tag', caps') = Some (Inr (replace_str tag' out' result))"
        using Cons.prems(1) by auto
    next
      fix tag' caps' out' q
      assume "Ref tag' caps' out' \<in> set ps" "q \<in> set ps"
      then show "\<not> starts_in tag' (rewritten q)"
        using Cons.prems(4) [of tag' caps' out' q] by auto
    qed
    with 1 2 Ref show ?thesis by simp
  qed
qed


section \<open>The tags of a document\<close>

lemma no_prefix_before:
  assumes "\<not> str_includes (c # w) s" and "c \<notin> set w" and "j < length s"
  shows "\<not> prefix (c # w) (drop j (s @ c # t))"
  using assms(1,3)
proof (induction s arbitrary: j)
  case Nil
  then show ?case by simp
next
  case (Cons x s)
  from Cons.prems(1) have 1: "\<not> prefix (c # w) (x # s)" "\<not> str_includes (c # w) s"
    by (simp_all add: str_includes_Cons)
  show ?case
  proof (cases j)
    case 0
    have "\<not> prefix (c # w) ((x # s) @ c # t)"
    proof
      assume "prefix (c # w) ((x # s) @ c # t)"
      then obtain us where us: "c # w = (x # s) @ us" "prefix us (c # t)"
        using 1(1) unfolding prefix_append by blast
      from us(1) 1(1) have "us \<noteq> []"
        by auto
      with us(2) have "hd us = c"
        by (cases us) auto
      with \<open>us \<noteq> []\<close> have "c \<in> set us"
        using hd_in_set by blast
      moreover from us(1) have "w = s @ us"
        by simp
      ultimately show False
        using assms(2) by simp
    qed
    with 0 show ?thesis by simp
  next
    case (Suc j')
    with Cons.prems(2) Cons.IH [OF 1(2), of j'] show ?thesis by simp
  qed
qed

lemma self_tag_match:
  assumes "CHR ''>'' \<notin> set inner"
  shows "match_here self_closing_rx (source (Self inner) @ x) = Some ([], x)"
proof -
  let ?w = "'' src='' @ CHR 0x22 # inner"
  have all: "list_all (not_char CHR ''>'') (?w @ ''/'')"
    using assms by (simp add: not_char_facts not_char_def)
  have hit: "match_here [Lit ''/>''] (''/'' @ ''>'' @ x) = Some ([], x)"
    by simp
  have miss: "match_here [Lit ''/>''] (drop j (''/'' @ ''>'' @ x)) = None"
    if "0 < j" "j \<le> length ''/''" for j
  proof -
    from that have "j = 1" by simp
    then show ?thesis by simp
  qed
  have "match_here [Rep Greedy (not_char CHR ''>'') 1 False, Lit ''/>''] (?w @ ''/'' @ ''>'' @ x)
          = Some ([], x)"
    using match_greedy_back [OF all _ _ hit miss, of 1 False] by (simp add: not_char_facts)
  then show ?thesis
    by (simp add: self_closing_rx_def)
qed

lemma self_tag_no_slot:
  "match_here children_rx (source (Self inner) @ x) = None"
  by (simp add: children_rx_def counts_def is_space_def)

lemma slot_tag_match:
  assumes "well_formed (Slot name attrsStr body)"
  shows "match_here children_rx (source (Slot name attrsStr body) @ x)
           = Some ([name, attrsStr, body], x)"
proof -
  let ?close = "''</Component>''"
  let ?r8 = "[Rep Lazy any_char 0 True, Lit ?close]"
  let ?r6 = "Rep Greedy (not_char CHR ''>'') 0 True # Lit ''>'' # ?r8"
  let ?r4 = "Rep Greedy (not_char (CHR 0x22)) 1 True # Lit [CHR 0x22] # ?r6"
  from assms have wf: "name \<noteq> []" "CHR 0x22 \<notin> set name" "CHR ''>'' \<notin> set attrsStr"
    "\<not> str_includes ?close body"
    by simp_all
  let ?s = "body @ ?close @ x"
  have tw: "takeWhile any_char s = s" for s
    by (simp add: any_char_def)
  have hit: "match_here [Lit ?close] (drop (length body) ?s) = Some ([], x)"
    by simp
  have miss: "match_here [Lit ?close] (drop j ?s) = None" if "j < length body" for j
  proof -
    have "\<not> prefix ?close (drop j (body @ CHR ''<'' # ''/Component>'' @ x))"
      using no_prefix_before [of "CHR ''<''" "''/Component>''" body j "''/Component>'' @ x"] wf(4) that
      by simp
    then show ?thesis by simp
  qed
  have 8: "match_here ?r8 ?s = Some ([body], x)"
    using match_lazy [of 0 "length body" any_char ?s "[Lit ?close]" "[]" x True] hit miss
    by (simp add: tw)
  then have "match_here (Lit ''>'' # ?r8) (''>'' @ ?s) = Some ([body], x)"
    by (simp only: match_here_Lit_app)
  from match_greedy_all [OF _ _ _ this, of "not_char CHR ''>''" attrsStr 0 True]
  have 6: "match_here ?r6 (attrsStr @ ''>'' @ ?s) = Some ([attrsStr, body], x)"
    using wf(3) by (simp add: not_char_facts)
  then have "match_here (Lit [CHR 0x22] # ?r6) ([CHR 0x22] @ attrsStr @ ''>'' @ ?s)
      = Some ([attrsStr, body], x)"
    by (simp only: match_here_Lit_app)
  moreover have "1 \<le> length name"
    using wf(1) by (cases name) simp_all
  moreover have "list_all (not_char (CHR 0x22)) name"
    using wf(2) by (simp add: not_char_facts)
  ultimately have 4: "match_here ?r4 (name @ [CHR 0x22] @ attrsStr @ ''>'' @ ?s) = Some ([name, attrsStr, body], x)"
    using match_greedy_all [of "not_char (CHR 0x22)" name 1 "[CHR 0x22] @ attrsStr @ ''>'' @ ?s"
        "Lit [CHR 0x22] # ?r6" "[attrsStr, body]" x True]
    by (simp add: not_char_facts)
  then have 3: "match_here (Lit (''name='' @ [CHR 0x22]) # ?r4)
        ((''name='' @ [CHR 0x22]) @ name @ [CHR 0x22] @ attrsStr @ ''>'' @ ?s)
      = Some ([name, attrsStr, body], x)"
    by (simp only: match_here_Lit_app)
  have sp: "list_all is_space '' ''"
    by (simp add: is_space_def)
  from match_greedy_all [OF sp _ _ 3, of 1 False]
  have "match_here (tl children_rx) ('' '' @ (''name='' @ [CHR 0x22]) @ name @ [CHR 0x22] @ attrsStr @ ''>'' @ ?s)
      = Some ([name, attrsStr, body], x)"
    by (simp add: children_rx_def is_space_def)
  then show ?thesis
    by (simp add: children_rx_def)
qed

lemma self_tag_inside:
  assumes "well_formed (Self inner)"
  shows "\<not> starts_in ''<Component'' (tl (source (Self inner)))"
proof -
  from assms have "\<not> str_includes ''<Component'' inner"
    by simp
  from starts_in_sealed [OF this, of "CHR ''/''" "''>''"]
  have "\<not> starts_in ''<Component'' (inner @ ''/>'')"
    by simp
  then have "\<not> starts_in ''<Component'' ((''Component src='' @ [CHR 0x22]) @ inner @ ''/>'')"
    by (subst starts_in_skip) simp_all
  then show ?thesis
    by simp
qed

lemma slot_tag_not_in_self_tag:
  assumes "well_formed (Self inner)"
  shows "\<not> starts_in (source (Slot name attrsStr body)) (source (Self inner))"
proof -
  have "\<not> starts_in (''<Component'' @ '' name='' @ [CHR 0x22] @ name @ [CHR 0x22] @ attrsStr @ ''>'' @ body @ ''</Component>'')
      (tl (source (Self inner)))"
    using self_tag_inside [OF assms] starts_in_longer by blast
  then show ?thesis
    by simp
qed

lemma tag_longer:
  "\<not> starts_in ''<Component'' s \<Longrightarrow> is_reference p \<Longrightarrow> \<not> starts_in (source p) s"
proof (cases p)
  case (Text t)
  assume "is_reference p"
  with Text show ?thesis by simp
next
  case (Self inner)
  assume "\<not> starts_in ''<Component'' s"
  then have "\<not> starts_in (''<Component'' @ '' src='' @ [CHR 0x22] @ inner @ ''/>'') s"
    using starts_in_longer by blast
  with Self show ?thesis by simp
next
  case (Slot name attrsStr body)
  assume "\<not> starts_in ''<Component'' s"
  then have "\<not> starts_in (''<Component'' @ '' name='' @ [CHR 0x22] @ name @ [CHR 0x22] @ attrsStr @ ''>'' @ body @ ''</Component>'') s"
    using starts_in_longer by blast
  with Slot show ?thesis by simp
qed

section \<open>What the two scans find in a document\<close>

lemma match_all_skip_tag:
  assumes "match_here (Lit w # r) (c # rest @ x) = None" and "\<not> starts_in w rest"
  shows "match_all (Lit w # r) ((c # rest) @ x) = match_all (Lit w # r) x"
proof (rule match_all_pre)
  show "rx_search (Lit w # r) ((c # rest) @ x) =
       (case rx_search (Lit w # r) x of
          None \<Rightarrow> None
        | Some (p, m, caps, rest') \<Rightarrow> Some ((c # rest) @ p, m, caps, rest'))"
    using rx_search_miss [OF assms(1)] rx_search_starts_in [OF assms(2), of r x]
    by (simp split: option.splits)
qed

lemma match_all_tag:
  assumes "match_here r (tag @ x) = Some (caps, x)" and "tag \<noteq> []"
  shows "match_all r (tag @ x) = (tag, caps) # match_all r x"
  using match_all_step [OF rx_search_hit_app [OF assms(1)] assms(2)] .

lemma first_scan:
  assumes "\<And>p out. (p, out) \<in> set doc \<Longrightarrow> well_formed p"
    and "\<And>t out. (Text t, out) \<in> set doc \<Longrightarrow> \<not> starts_in ''<Component'' t"
  shows "match_all children_rx (concat (map written (map first_view doc))) = hits (map first_view doc)"
  using assms
proof (induction doc)
  case Nil
  have "rx_search children_rx [] = None"
    by (simp add: rx_search_Nil children_rx_def)
  then show ?case
    by (simp add: match_all_None)
next
  case (Cons po doc)
  obtain p out where po: "po = (p, out)"
    by (cases po)
  let ?x = "concat (map written (map first_view doc))"
  have IH: "match_all children_rx ?x = hits (map first_view doc)"
  proof (rule Cons.IH)
    fix p out
    assume "(p, out) \<in> set doc"
    then show "well_formed p"
      using Cons.prems(1) by auto
  next
    fix t out
    assume "(Text t, out) \<in> set doc"
    then show "\<not> starts_in ''<Component'' t"
      using Cons.prems(2) by auto
  qed
  from Cons.prems(1) [of p out] po have wf: "well_formed p"
    by simp
  show ?case
  proof (cases p)
    case (Text t)
    then have "\<not> starts_in ''<Component'' t"
      using Cons.prems(2) [of t out] po by simp
    then have "match_all children_rx (t @ ?x) = match_all children_rx ?x"
      using match_all_pre [OF rx_search_starts_in [of "''<Component''" t "tl children_rx" ?x]]
      by (simp add: children_rx_def)
    with Text po IH show ?thesis by simp
  next
    case (Self inner)
    have "match_all children_rx (source (Self inner) @ ?x) = match_all children_rx ?x"
      using match_all_skip_tag [of "''<Component''" "tl children_rx" "CHR ''<''" "tl (source (Self inner))" ?x]
        self_tag_no_slot [of inner ?x] self_tag_inside [of inner] wf Self
      by (simp add: children_rx_def)
    with Self po IH show ?thesis by simp
  next
    case (Slot name attrsStr body)
    have "match_all children_rx (source (Slot name attrsStr body) @ ?x)
        = (source (Slot name attrsStr body), [name, attrsStr, body]) # match_all children_rx ?x"
      using match_all_tag [OF slot_tag_match] wf Slot by simp
    with Slot po IH show ?thesis by simp
  qed
qed

lemma second_scan:
  assumes "\<And>p out. (p, out) \<in> set doc \<Longrightarrow> well_formed p"
    and "\<And>t out. (Text t, out) \<in> set doc \<Longrightarrow> \<not> starts_in ''<Component'' t"
    and "\<And>name attrsStr body out. (Slot name attrsStr body, out) \<in> set doc \<Longrightarrow>
       \<not> starts_in ''<Component'' out"
  shows "match_all self_closing_rx (concat (map written (map second_view doc)))
       = hits (map second_view doc)"
  using assms
proof (induction doc)
  case Nil
  have "rx_search self_closing_rx [] = None"
    by (simp add: rx_search_Nil self_closing_rx_def)
  then show ?case
    by (simp add: match_all_None)
next
  case (Cons po doc)
  obtain p out where po: "po = (p, out)"
    by (cases po)
  let ?x = "concat (map written (map second_view doc))"
  have IH: "match_all self_closing_rx ?x = hits (map second_view doc)"
  proof (rule Cons.IH)
    fix p out
    assume "(p, out) \<in> set doc"
    then show "well_formed p"
      using Cons.prems(1) by auto
  next
    fix t out
    assume "(Text t, out) \<in> set doc"
    then show "\<not> starts_in ''<Component'' t"
      using Cons.prems(2) by auto
  next
    fix name attrsStr body out
    assume "(Slot name attrsStr body, out) \<in> set doc"
    then show "\<not> starts_in ''<Component'' out"
      using Cons.prems(3) by auto
  qed
  from Cons.prems(1) [of p out] po have wf: "well_formed p"
    by simp
  have skip: "match_all self_closing_rx (s @ ?x) = match_all self_closing_rx ?x"
    if "\<not> starts_in ''<Component'' s" for s
    using match_all_pre [OF rx_search_starts_in [OF that, of "tl self_closing_rx" ?x]]
    by (simp add: self_closing_rx_def)
  show ?case
  proof (cases p)
    case (Text t)
    then have "\<not> starts_in ''<Component'' t"
      using Cons.prems(2) [of t out] po by simp
    with Text po IH skip show ?thesis by simp
  next
    case (Self inner)
    have "match_all self_closing_rx (source (Self inner) @ ?x)
        = (source (Self inner), []) # match_all self_closing_rx ?x"
      using match_all_tag [OF self_tag_match] wf Self by simp
    with Self po IH show ?thesis by simp
  next
    case (Slot name attrsStr body)
    then have "\<not> starts_in ''<Component'' out"
      using Cons.prems(3) [of name attrsStr body out] po by simp
    with Slot po IH skip show ?thesis by simp
  qed
qed

section \<open>Compiling a document\<close>

lemma children_step_outcome:
  assumes "outcome compile e root projectRoot (Slot name attrsStr body) = Some (Inr out)"
  shows "children_step compile e root projectRoot result (source (Slot name attrsStr body), [name, attrsStr, body])
       = Some (Inr (replace_str (source (Slot name attrsStr body)) out result))"
  using assms by (auto simp: children_step_def Let_def split: option.splits sum.splits)

lemma self_closing_step_outcome:
  assumes "outcome compile e root projectRoot (Self inner) = Some (Inr out)"
    and "\<not> starts_in ''<Component'' out"
  shows "self_closing_step compile e root projectRoot result (source (Self inner), caps)
       = Some (Inr (replace_str (source (Self inner)) out result))"
proof -
  have "starts_in ''<Component'' (source (Self inner))"
    by simp
  with assms(2) have "out \<noteq> source (Self inner)"
    by auto
  with assms(1) show ?thesis
    by (auto simp: self_closing_step_def Let_def split: option.splits sum.splits if_splits)
qed

lemma written_first_view:
  "written (first_view (p, out)) = source p"
  by (cases p) simp_all

lemma rewritten_first_view:
  "rewritten (first_view (p, out)) = written (second_view (p, out))"
  by (cases p) simp_all

lemma rewritten_second_view:
  "(\<And>t. p = Text t \<Longrightarrow> out = t) \<Longrightarrow> rewritten (second_view (p, out)) = out"
  by (cases p) simp_all

lemma first_view_Ref:
  assumes "first_view (p, out') = Ref tag caps out"
  obtains name attrsStr body where "p = Slot name attrsStr body" "out' = out" "tag = source p"
    "caps = [name, attrsStr, body]"
  using assms by (cases p) simp_all

lemma second_view_Ref:
  assumes "second_view (p, out') = Ref tag caps out"
  obtains inner where "p = Self inner" "out' = out" "tag = source p"
  using assms by (cases p) simp_all

lemma compile_document:
  assumes parts: "\<And>p out. (p, out) \<in> set doc \<Longrightarrow>
      well_formed p
      \<and> outcome (\<lambda>content. compileHtml depth e content root (Some (effectiveProjectRoot e root projectRoot)))
            e root (effectiveProjectRoot e root projectRoot) p = Some (Inr out)
      \<and> \<not> starts_in ''<Component'' out
      \<and> (is_reference p \<longrightarrow> CHR ''$'' \<notin> set out)"
  shows "compileHtml (Suc depth) e (concat (map (\<lambda>po. source (fst po)) doc)) root projectRoot
       = Some (Inr (concat (map snd doc)))"
proof -
  let ?epr = "effectiveProjectRoot e root projectRoot"
  let ?compile = "\<lambda>content. compileHtml depth e content root (Some ?epr)"
  let ?html = "concat (map (\<lambda>po. source (fst po)) doc)"
  have plain: "out = t" "\<not> starts_in ''<Component'' t" if "(Text t, out) \<in> set doc" for t out
    using parts [OF that] by simp_all
  have wf: "well_formed p" if "(p, out) \<in> set doc" for p out
    using parts [OF that] by simp
  have sealed: "\<not> starts_in ''<Component'' out" if "(p, out) \<in> set doc" for p out
    using parts [OF that] by simp
  have "map written (map first_view doc) = map (\<lambda>po. source (fst po)) doc"
    by (auto simp: written_first_view)
  then have w1: "concat (map written (map first_view doc)) = ?html"
    by (simp only:)
  have "map rewritten (map first_view doc) = map written (map second_view doc)"
    by (auto simp: rewritten_first_view)
  then have w2: "concat (map rewritten (map first_view doc)) = concat (map written (map second_view doc))"
    by (simp only:)
  have "rewritten (second_view (p, out)) = out" if "(p, out) \<in> set doc" for p out
    using plain(1) that by (intro rewritten_second_view) simp
  then have "map rewritten (map second_view doc) = map snd doc"
    by auto
  then have w3: "concat (map rewritten (map second_view doc)) = concat (map snd doc)"
    by (simp only:)
  have "run_matches (children_step ?compile e root ?epr) (hits (map first_view doc))
          ([] @ concat (map written (map first_view doc)))
      = Some (Inr ([] @ concat (map rewritten (map first_view doc))))"
  proof (rule run_pass)
    fix tag caps out result
    assume "Ref tag caps out \<in> set (map first_view doc)"
    then obtain p0 out0 where "(p0, out0) \<in> set doc" "first_view (p0, out0) = Ref tag caps out"
      by auto
    then obtain name attrsStr body where r: "(Slot name attrsStr body, out) \<in> set doc"
      "tag = source (Slot name attrsStr body)" "caps = [name, attrsStr, body]"
      using first_view_Ref [of p0 out0 tag caps out] by metis
    from parts [OF r(1)] r(2,3)
    show "children_step ?compile e root ?epr result (tag, caps) = Some (Inr (replace_str tag out result))"
      using children_step_outcome by blast
    from parts [OF r(1)] show "CHR ''$'' \<notin> set out"
      by simp
    show "\<not> starts_in tag []"
      by simp
    fix q
    assume "q \<in> set (map first_view doc)"
    then obtain p' out' where q: "(p', out') \<in> set doc" "q = first_view (p', out')"
      by auto
    show "\<not> starts_in tag (rewritten q)"
    proof (cases p')
      case (Text t)
      with q plain [of t out'] r(2) tag_longer [of t "Slot name attrsStr body"] show ?thesis
        by simp
    next
      case (Self inner)
      with q wf [of p' out'] r(2) slot_tag_not_in_self_tag [of inner name attrsStr body] show ?thesis
        by simp
    next
      case (Slot name' attrsStr' body')
      with q sealed [of p' out'] r(2) tag_longer [of out' "Slot name attrsStr body"] show ?thesis
        by simp
    qed
  qed
  then have first: "processComponentsWithChildren ?compile e ?html root ?epr
      = Some (Inr (concat (map written (map second_view doc))))"
    using first_scan [of doc] wf plain(2)
    by (simp add: processComponentsWithChildren_def w1 w2 del: map_map)
  have "run_matches (self_closing_step ?compile e root ?epr) (hits (map second_view doc))
          ([] @ concat (map written (map second_view doc)))
      = Some (Inr ([] @ concat (map rewritten (map second_view doc))))"
  proof (rule run_pass)
    fix tag caps out result
    assume "Ref tag caps out \<in> set (map second_view doc)"
    then obtain p0 out0 where "(p0, out0) \<in> set doc" "second_view (p0, out0) = Ref tag caps out"
      by auto
    then obtain inner where r: "(Self inner, out) \<in> set doc" "tag = source (Self inner)"
      using second_view_Ref [of p0 out0 tag caps out] by metis
    from parts [OF r(1)] r(2)
    show "self_closing_step ?compile e root ?epr result (tag, caps) = Some (Inr (replace_str tag out result))"
      using self_closing_step_outcome by blast
    from parts [OF r(1)] show "CHR ''$'' \<notin> set out"
      by simp
    show "\<not> starts_in tag []"
      by simp
    fix q
    assume "q \<in> set (map second_view doc)"
    then obtain p' out' where q: "(p', out') \<in> set doc" "q = second_view (p', out')"
      by auto
    have "\<not> starts_in ''<Component'' (rewritten q)"
    proof (cases p')
      case (Text t)
      with q plain [of t out'] show ?thesis by simp
    next
      case (Self inner')
      with q sealed [of p' out'] show ?thesis by simp
    next
      case (Slot name' attrsStr' body')
      with q sealed [of p' out'] show ?thesis by simp
    qed
    with r(2) tag_longer [of "rewritten q" "Self inner"] show "\<not> starts_in tag (rewritten q)"
      by simp
  qed
  then have second: "processSelfClosingComponents ?compile e (concat (map written (map second_view doc))) root ?epr
      = Some (Inr (concat (map snd doc)))"
    using second_scan [of doc] wf plain(2) sealed
    by (simp add: processSelfClosingComponents_def w3 del: map_map)
  from first second show ?thesis
    by (simp add: Let_def)
qed



section \<open>The attributes of a reference\<close>





section \<open>What happens to a component reference\<close>





section \<open>Components that are not found\<close>









section \<open>Recompiling the output\<close>

lemma compileHtml_plain:
  assumes "\<not> str_includes ''<Component'' html"
  shows "compileHtml (Suc depth) e html root projectRoot = Some (Inr html)"
proof -
  have "match_all children_rx html = []"
    using assms by (simp add: children_rx_def match_all_None rx_search_no_literal)
  moreover have "match_all self_closing_rx html = []"
    using assms by (simp add: self_closing_rx_def match_all_None rx_search_no_literal)
  ultimately show ?thesis
    by (simp add: processComponentsWithChildren_def processSelfClosingComponents_def)
qed

text \<open>
  C3, as the code has it. Recompiling the output of a compile returns it unchanged when
  the output contains no \<open><Component\<close>: nothing is left for either pass to match.
  (The bound on the nesting depth is the one the first compile returned with.)
\<close>

theorem recompile_without_tags:
  assumes "compileHtml depth e html root projectRoot = Some (Inr out)"
    and "\<not> str_includes ''<Component'' out"
  shows "compileHtml depth e out root projectRoot = Some (Inr out)"
proof (cases depth)
  case 0
  with assms(1) show ?thesis by simp
next
  case (Suc d)
  with compileHtml_plain [OF assms(2)] show ?thesis by simp
qed

theorem recompile_without_tags_witness:
  \<open>compileHtml 2 site_env ''<Component name="Box">x</Component>'' ''site/src'' None
     = Some (Inr ''<div>x</div>'')
   \<and> \<not> str_includes ''<Component'' ''<div>x</div>''
   \<and> compileHtml 2 site_env ''<div>x</div>'' ''site/src'' None = Some (Inr ''<div>x</div>'')\<close>
proof -
  have a: \<open>compileHtml 2 site_env ''<Component name="Box">x</Component>'' ''site/src'' None
      = Some (Inr ''<div>x</div>'')\<close>
    by code_simp
  have b: \<open>\<not> str_includes ''<Component'' ''<div>x</div>''\<close>
    by code_simp
  from recompile_without_tags [OF a b] a b show ?thesis by simp
qed

text \<open>
  The output of one compile need not be free of component tags, and then it is not a
  fixed point. A child-bearing match ends at the first \<open></Component>\<close>, so of two
  nested references the inner opening tag is spliced into the outer component as text
  and left there; compiling the output again pairs it with the closing tag that was left
  over.
\<close>

theorem recompile_counterexample:
  \<open>compileHtml 2 site_env ''<Component name="Box"><Component name="Box">x</Component></Component>'' ''site/src'' None
     = Some (Inr ''<div><Component name="Box">x</div></Component>'')
   \<and> compileHtml 2 site_env ''<div><Component name="Box">x</div></Component>'' ''site/src'' None
     = Some (Inr ''<div><div>x</div></div>'')\<close>
  by code_simp


section \<open>Resolving a component\<close>

lemma load_from_resolve_from:
  assumes "\<And>p. p \<in> set paths \<Longrightarrow> replace_str ''.html'' ''.js'' p = js_path p"
  shows "load_from e attrs paths = resolve_from e attrs paths"
  using assms
  by (induction paths) (auto simp: Let_def split: option.splits component_export.splits)

lemma str_search_at_end:
  assumes "\<not> str_includes pat (stem @ butlast pat)" and "pat \<noteq> []"
  shows "str_search pat (stem @ pat) = Some (stem, [])"
  using assms(1)
proof (induction stem)
  case Nil
  then show ?case by (simp add: str_search.simps [of pat pat])
next
  case (Cons x stem)
  have np: "\<not> prefix pat (x # stem @ pat)"
  proof
    assume "prefix pat (x # stem @ pat)"
    then have "prefix pat (((x # stem) @ butlast pat) @ [last pat])"
      using assms(2) by simp
    moreover have "length pat \<le> length ((x # stem) @ butlast pat)"
      by simp
    ultimately have "prefix pat ((x # stem) @ butlast pat)"
      by (metis prefix_length_prefix prefixI append.assoc)
    with Cons.prems show False
      by (simp add: str_includes_Cons)
  qed
  moreover from Cons.prems have "\<not> str_includes pat (stem @ butlast pat)"
    by (simp add: str_includes_Cons)
  ultimately show ?case
    using Cons.IH by (simp add: str_search.simps [of pat "x # stem @ pat"])
qed

lemma replace_extension:
  assumes "\<not> str_includes ''.html'' (stem @ ''.htm'')"
  shows "replace_str ''.html'' ''.js'' (stem @ ''.html'') = js_path (stem @ ''.html'')"
  using str_search_at_end [of "''.html''" stem] assms
  by (simp add: replace_str_def js_path_def)

lemma loadComponent_resolves:
  assumes "\<And>p. p \<in> set (possiblePaths e name root projectRoot) \<Longrightarrow>
             \<exists>stem. p = stem @ ''.html'' \<and> \<not> str_includes ''.html'' (stem @ ''.htm'')"
  shows "loadComponent e name root projectRoot attrs =
           resolve_from e attrs (possiblePaths e name root projectRoot)"
  unfolding loadComponent_def
  by (rule load_from_resolve_from) (use assms replace_extension in blast)

text \<open>
  C4. The resolver is to try, at each base where the markup file is absent, the same
  path stem with the extension \<open>.js\<close>. The code builds that path with
  \<open>componentPath.replace('.html', '.js')\<close>, which replaces the first \<open>.html\<close> of
  the whole path, not its extension. The two agree when \<open>.html\<close> occurs only at the
  end of the path (\<open>loadComponent_resolves\<close>). For a project under
  \<open>/home/dev/site.html\<close> they differ: the module \<open>Clock.js\<close> stands at the first
  base, the code asks for \<open>/home/dev/site.js/src/components/Clock.html\<close>, and the
  component is reported as not found, where the resolver of the specification returns
  what the module produces, as the code does for the same project under
  \<open>/home/dev/site\<close>.
\<close>

theorem loadComponent_wrong_js_path:
  "replace_str ''.html'' ''.js'' ''/home/dev/site.html/src/components/Clock.html''
     = ''/home/dev/site.js/src/components/Clock.html''
   \<and> loadComponent (sample_env [] [(''/home/dev/site.html/src/components/Clock.js'', clock_module)])
        ''Clock'' ''/home/dev/site.html/src'' ''/home/dev/site.html'' [(''src'', ''Clock''), (''zone'', ''cet'')]
       = None
   \<and> resolve_from (sample_env [] [(''/home/dev/site.html/src/components/Clock.js'', clock_module)])
        [(''src'', ''Clock''), (''zone'', ''cet'')]
        (possiblePaths (sample_env [] [(''/home/dev/site.html/src/components/Clock.js'', clock_module)])
           ''Clock'' ''/home/dev/site.html/src'' ''/home/dev/site.html'')
       = Some ''<time>cet</time>''
   \<and> loadComponent (sample_env [] [(''/home/dev/site/src/components/Clock.js'', clock_module)])
        ''Clock'' ''/home/dev/site/src'' ''/home/dev/site'' [(''src'', ''Clock''), (''zone'', ''cet'')]
       = Some ''<time>cet</time>''"
  by code_simp


section \<open>Binding the placeholders\<close>

lemma rx_replace_all_verbatim:
  "CHR ''$'' \<notin> set v \<Longrightarrow> rx_replace_all r v seen s = splice_all r v s"
proof (induction r v seen s rule: rx_replace_all.induct)
  case (1 r v seen s)
  show ?case
  proof (cases "rx_search r s")
    case None
    then show ?thesis
      by (simp add: rx_replace_all.simps [of r v seen s] splice_all.simps [of r v s])
  next
    case (Some a)
    obtain pre m caps rest where a: "a = (pre, m, caps, rest)" by (cases a)
    show ?thesis
    proof (cases "m = []")
      case True
      show ?thesis
      proof (cases rest)
        case Nil
        with True Some a "1.prems" show ?thesis
          by (simp add: rx_replace_all.simps [of r v seen s] splice_all.simps [of r v s]
              get_substitution_plain)
      next
        case (Cons c t)
        with True Some a "1.prems" "1.IH"(1) [OF Some a [symmetric] refl refl True Cons "1.prems"]
        show ?thesis
          by (simp add: rx_replace_all.simps [of r v seen s] splice_all.simps [of r v s]
              get_substitution_plain)
      qed
    next
      case False
      with Some a "1.prems" "1.IH"(2) [OF Some a [symmetric] refl refl False "1.prems"]
      show ?thesis
        by (simp add: rx_replace_all.simps [of r v seen s] splice_all.simps [of r v s]
            get_substitution_plain)
    qed
  qed
qed

lemma replace_all_verbatim:
  "CHR ''$'' \<notin> set v \<Longrightarrow> replace_all r v s = splice_all r v s"
  by (simp add: replace_all_def rx_replace_all_verbatim)

lemma set_object_entries: "set (object_entries ob) = set ob"
  by (auto simp: object_entries_def)

lemma foldl_cong_set:
  "(\<And>a x. x \<in> set xs \<Longrightarrow> f a x = g a x) \<Longrightarrow> foldl f a xs = foldl g a xs"
  by (induction xs arbitrary: a) auto

text \<open>
  When neither the children nor a prop value contains a dollar sign, the code binds as
  the specification says: the children first, then each prop, every occurrence, verbatim.
\<close>

lemma bind_children_verbatim:
  assumes "CHR ''$'' \<notin> set children" and "\<And>k v. (k, v) \<in> set attrs \<Longrightarrow> CHR ''$'' \<notin> set v"
  shows "bind_children children attrs content = spec_bind_children children attrs content"
proof -
  have "replace_all (placeholder_rx (fst kv)) (snd kv) c = splice_all (placeholder_rx (fst kv)) (snd kv) c"
    if "kv \<in> set (object_entries attrs)" for kv c
    using that assms(2) [of "fst kv" "snd kv"] by (simp add: set_object_entries replace_all_verbatim)
  then show ?thesis
    unfolding bind_children_def spec_bind_children_def replace_all_verbatim [OF assms(1)]
    by (intro foldl_cong_set) simp
qed

text \<open>
  C5. The children are to be put verbatim in the place of every \<open>{{ children }}\<close>, and
  then each prop value in the place of its placeholder. The specification's example
  comes out as it says. But the children and the values are passed to
  \<open>String.prototype.replace\<close> as replacement templates, in which \<open>$$\<close>, \<open>$&\<close>,
  \<open>$`\<close> and \<open>$'\<close> are substituted: the children \<open><p>$$x$$</p>\<close> arrive in the
  output as \<open><p>$x$</p>\<close>.
\<close>

theorem children_binding_dollar:
  \<open>compileHtml 2 site_env ''<Component name="Card" title="T"><p>Z</p></Component>'' ''site/src'' None
     = Some (Inr ''<div>T<p>Z</p></div>'')
   \<and> bind_children ''<p>$$x$$</p>'' [(''title'', ''T'')] ''<div>{{ title }}{{ children }}</div>''
     = ''<div>T<p>$x$</p></div>''
   \<and> compileHtml 2 site_env ''<Component name="Card" title="T"><p>$$x$$</p></Component>'' ''site/src'' None
     = Some (Inr ''<div>T<p>$x$</p></div>'')\<close>
  by code_simp

text \<open>
  The same holds for the binder of the self-closing form, when no prop value and no
  class list of the variant table contains a dollar sign, and the variant, where the
  table does not have it, is not the name of a property of \<open>Object.prototype\<close>.
\<close>

lemma bind_prop_verbatim:
  assumes "CHR ''$'' \<notin> set (snd kv)" and "\<And>k v. (k, v) \<in> set variants \<Longrightarrow> CHR ''$'' \<notin> set v"
    and "fst kv = ''variant'' \<Longrightarrow> obj_get variants (snd kv) = None \<Longrightarrow> object_prototype (snd kv) = Undefined"
  shows "bind_prop variants content kv = Inr (spec_bind_prop variants content kv)"
proof (cases "obj_get variants (snd kv)")
  case None
  with assms(1,3) show ?thesis
    by (auto simp: bind_prop_def spec_bind_prop_def Let_def replace_all_verbatim obj_lookup_def
        truthy_def)
next
  case (Some cls)
  then have "(snd kv, cls) \<in> set variants"
    by (simp add: obj_get_def map_of_SomeD)
  then have "CHR ''$'' \<notin> set cls"
    using assms(2) by blast
  with Some assms(1) show ?thesis
    by (auto simp: bind_prop_def spec_bind_prop_def Let_def replace_all_verbatim obj_lookup_def
        truthy_def replace_value_def)
qed

lemma bind_props_foldl:
  assumes "\<And>kv c. kv \<in> set kvs \<Longrightarrow> bind_prop variants c kv = Inr (f c kv)"
  shows "bind_props variants kvs content = Inr (foldl f content kvs)"
  using assms by (induction kvs arbitrary: content) simp_all

lemma bind_self_closing_verbatim:
  assumes "\<And>k v. (k, v) \<in> set attrs \<Longrightarrow> CHR ''$'' \<notin> set v"
    and "\<And>k v. (k, v) \<in> set (parseVariants content) \<Longrightarrow> CHR ''$'' \<notin> set v"
    and "\<And>v. (''variant'', v) \<in> set attrs \<Longrightarrow> obj_get (parseVariants content) v = None \<Longrightarrow>
       object_prototype v = Undefined"
  shows "bind_self_closing attrs content = Inr (spec_bind_self_closing attrs content)"
proof -
  have "bind_prop (parseVariants content) c kv = Inr (spec_bind_prop (parseVariants content) c kv)"
    if "kv \<in> set (object_entries attrs)" for kv c
  proof (rule bind_prop_verbatim)
    from that have kv: "(fst kv, snd kv) \<in> set attrs"
      by (simp add: set_object_entries)
    then show "CHR ''$'' \<notin> set (snd kv)"
      using assms(1) by blast
    show "\<And>k v. (k, v) \<in> set (parseVariants content) \<Longrightarrow> CHR ''$'' \<notin> set v"
      using assms(2) .
    assume "fst kv = ''variant''" "obj_get (parseVariants content) (snd kv) = None"
    with kv assms(3) [of "snd kv"] show "object_prototype (snd kv) = Undefined"
      by simp
  qed
  then have "bind_props (parseVariants content) (object_entries attrs) content
      = Inr (foldl (spec_bind_prop (parseVariants content)) content (object_entries attrs))"
    by (rule bind_props_foldl)
  then show ?thesis
    by (simp add: bind_self_closing_def spec_bind_self_closing_def Let_def replace_all_verbatim)
qed

text \<open>
  The table is looked up with \<open>variants[value]\<close>, and a plain object inherits from
  \<open>Object.prototype\<close>: a variant named after one of its properties is found there. So
  \<open>variant="toString"\<close> gives the class \<open>[object Undefined]\<close>, and \<open>variant="valueOf"\<close>
  makes the replacement call a function that throws, and the compile with it.
\<close>

lemma variant_from_prototype:
  \<open>compileHtml 2 site_env ''<Component src="Button" variant="toString" text="Go" />'' ''site/src'' None
     = Some (Inr ''<!-- variants: primary=btn-primary --><a class="[object Undefined]">Go</a>'')
   \<and> compileHtml 2 site_env ''<Component src="Button" variant="valueOf" text="Go" />'' ''site/src'' None
     = Some (Inl TypeError)\<close>
  by code_simp

text \<open>
  C6. With a variant that the table knows, \<open>{{ variantClasses }}\<close> becomes its class
  list; without a variant, or with an unknown one, it becomes the empty string; the other
  props fill their placeholders. The specification's example comes out as it says. But a
  prop value is a replacement template for \<open>String.prototype.replace\<close> here as well:
  the prop \<open>text="$$x$$"\<close> arrives in the output as \<open>$x$\<close>.
\<close>

theorem self_closing_binding_dollar:
  \<open>compileHtml 2 site_env ''<Component src="Button" variant="primary" text="Go" />'' ''site/src'' None
     = Some (Inr ''<!-- variants: primary=btn-primary --><a class="btn-primary">Go</a>'')
   \<and> compileHtml 2 site_env ''<Component src="Button" text="Go" />'' ''site/src'' None
     = Some (Inr ''<!-- variants: primary=btn-primary --><a class="">Go</a>'')
   \<and> compileHtml 2 site_env ''<Component src="Button" variant="huge" text="Go" />'' ''site/src'' None
     = Some (Inr ''<!-- variants: primary=btn-primary --><a class="">Go</a>'')
   \<and> bind_self_closing [(''src'', ''Button''), (''variant'', ''primary''), (''text'', ''$$x$$'')]
        ''<!-- variants: primary=btn-primary --><a class="{{ variantClasses }}">{{ text }}</a>''
     = Inr ''<!-- variants: primary=btn-primary --><a class="btn-primary">$x$</a>''
   \<and> compileHtml 2 site_env ''<Component src="Button" variant="primary" text="$$x$$" />'' ''site/src'' None
     = Some (Inr ''<!-- variants: primary=btn-primary --><a class="btn-primary">$x$</a>'')\<close>
  by code_simp


section \<open>The variant table\<close>

lemma split_on_not_Nil [simp]: "split_on d s \<noteq> []"
  by (induction s) (auto split: list.splits)

lemma join_with_Cons: "join_with d (x # xs) = (if xs = [] then x else x @ d # join_with d xs)"
  by (cases xs) simp_all

lemma join_split: "join_with d (split_on d s) = s"
proof (induction s)
  case Nil
  then show ?case by simp
next
  case (Cons c s)
  obtain x xs where sp: "split_on d s = x # xs"
    by (cases "split_on d s") simp_all
  with Cons show ?case
    by (auto simp: join_with_Cons)
qed

lemma split_on_first:
  "split_on d s = takeWhile (\<lambda>c. c \<noteq> d) s # tl (split_on d s)
   \<and> join_with d (tl (split_on d s)) = drop 1 (dropWhile (\<lambda>c. c \<noteq> d) s)"
proof (induction s)
  case Nil
  then show ?case by simp
next
  case (Cons c s)
  obtain x xs where sp: "split_on d s = x # xs"
    by (cases "split_on d s") simp_all
  show ?case
  proof (cases "c = d")
    case True
    then show ?thesis by (simp add: join_split)
  next
    case False
    with Cons sp show ?thesis by auto
  qed
qed

lemma add_variant_split_first:
  "add_variant table pair =
     (case split_first CHR ''='' pair of
        (name, classes) \<Rightarrow>
          if name \<noteq> [] \<and> classes \<noteq> [] then obj_set (trim name) (trim classes) table else table)"
proof -
  from split_on_first [of "CHR ''=''" pair]
  obtain xs where "split_on CHR ''='' pair = takeWhile (\<lambda>c. c \<noteq> CHR ''='') pair # xs"
    "join_with CHR ''='' xs = drop 1 (dropWhile (\<lambda>c. c \<noteq> CHR ''='') pair)"
    by blast
  then show ?thesis
    by (simp add: add_variant_def split_first_def Let_def)
qed

lemma foldl_add_variant:
  "foldl add_variant table pairs =
     foldl (\<lambda>table (name, classes).
              if name \<noteq> [] \<and> classes \<noteq> [] then obj_set (trim name) (trim classes) table else table)
       table (map (split_first CHR ''='') pairs)"
  by (induction pairs arbitrary: table) (simp_all add: add_variant_split_first split: prod.splits)

lemma no_comment_end:
  assumes "y \<noteq> []" and "CHR ''>'' \<notin> set y"
  shows "\<not> prefix ''-->'' (y @ ''-->'' @ post)"
proof (cases y)
  case Nil
  with assms show ?thesis by simp
next
  case (Cons a y1)
  show ?thesis
  proof (cases y1)
    case Nil
    with Cons show ?thesis by simp
  next
    case (Cons b y2)
    note y1 = this
    show ?thesis
    proof (cases y2)
      case Nil
      with y1 \<open>y = a # y1\<close> show ?thesis by simp
    next
      case (Cons c y3)
      with y1 \<open>y = a # y1\<close> assms(2) show ?thesis by auto
    qed
  qed
qed

lemma variants_rx_match:
  assumes ws: "list_all is_space ws1" "list_all is_space ws2" "list_all is_space ws3"
    and body: "body \<noteq> []" "list_all is_dot body" "\<not> is_space (hd body)" "\<not> is_space (last body)"
      "CHR ''>'' \<notin> set body"
  shows "match_here variants_rx
           (''<!--'' @ ws1 @ ''variants:'' @ ws2 @ body @ ws3 @ ''-->'' @ post) = Some ([body], post)"
proof -
  let ?tail = "ws3 @ ''-->'' @ post"
  let ?close = "[Rep Greedy is_space 0 False, Lit ''-->'']"
  have 1: "match_here [Lit ''-->''] (''-->'' @ post) = Some ([], post)"
    by simp
  have 2: "match_here ?close ?tail = Some ([], post)"
    using match_greedy_all [OF ws(3) _ _ 1, of 0 False] by (simp add: space_facts)
  have early: "match_here ?close (drop j (body @ ?tail)) = None" if "1 \<le> j" "j < length body" for j
  proof (rule match_here_Rep_None)
    fix i
    assume "i \<le> length (takeWhile is_space (drop j (body @ ?tail)))"
    moreover have "drop j body \<noteq> []" "\<not> is_space (last (drop j body))"
      using that body(4) by simp_all
    then have "length (takeWhile is_space (drop j body @ ?tail)) < length (drop j body)"
      by (rule takeWhile_short)
    ultimately have ij: "i + j < length body"
      using that by simp
    let ?y = "drop (i + j) body @ ws3"
    have "?y \<noteq> []" using ij by simp
    moreover have "CHR ''>'' \<notin> set ?y"
      using body(5) ws(3) by (auto simp: list_all_iff space_facts dest: in_set_dropD)
    ultimately have "\<not> prefix ''-->'' (?y @ ''-->'' @ post)"
      by (rule no_comment_end)
    moreover have "drop i (drop j (body @ ?tail)) = ?y @ ''-->'' @ post"
      using ij by (simp add: add.commute)
    ultimately show "match_here [Lit ''-->''] (drop i (drop j (body @ ?tail))) = None"
      by (simp del: drop_drop)
  qed
  have "length body \<le> length (takeWhile is_dot (body @ ?tail))"
    using body(2) by (simp add: list_all_iff)
  from match_lazy [of 1 "length body" is_dot "body @ ?tail" ?close "[]" post True, OF _ this] 2 early body(1)
  have 3: "match_here (Rep Lazy is_dot 1 True # ?close) (body @ ?tail) = Some ([body], post)"
    by (cases body) simp_all
  have "body @ ?tail = [] \<or> \<not> is_space (hd (body @ ?tail))"
    using body(1,3) by simp
  from match_greedy_all [OF ws(2) _ this 3, of 0 False]
  have 4: "match_here (Rep Greedy is_space 0 False # Rep Lazy is_dot 1 True # ?close)
             (ws2 @ body @ ?tail) = Some ([body], post)"
    by simp
  have 5: "match_here (Lit ''variants:'' # Rep Greedy is_space 0 False # Rep Lazy is_dot 1 True # ?close)
             (''variants:'' @ ws2 @ body @ ?tail) = Some ([body], post)"
    using 4 by (simp only: match_here_Lit_app)
  have "''variants:'' @ ws2 @ body @ ?tail = [] \<or> \<not> is_space (hd (''variants:'' @ ws2 @ body @ ?tail))"
    by (simp add: space_facts)
  from match_greedy_all [OF ws(1) _ this 5, of 0 False]
  have "match_here (tl variants_rx) (ws1 @ ''variants:'' @ ws2 @ body @ ?tail) = Some ([body], post)"
    by (simp add: variants_rx_def)
  then show ?thesis
    using match_here_Lit_app [of "''<!--''" "tl variants_rx"]
    by (simp add: variants_rx_def)
qed

lemma parseVariants_directive:
  assumes "\<not> starts_in ''<!--'' pre"
    and "list_all is_space ws1" "list_all is_space ws2" "list_all is_space ws3"
    and "body \<noteq> []" "list_all is_dot body" "\<not> is_space (hd body)" "\<not> is_space (last body)"
      "CHR ''>'' \<notin> set body"
  shows "parseVariants (pre @ ''<!--'' @ ws1 @ ''variants:'' @ ws2 @ body @ ws3 @ ''-->'' @ post)
           = variant_table body"
proof -
  let ?d = "''<!--'' @ ws1 @ ''variants:'' @ ws2 @ body @ ws3 @ ''-->''"
  have "match_here variants_rx (?d @ post) = Some ([body], post)"
    using variants_rx_match [OF assms(2-9)] by simp
  from rx_search_hit_app [OF this]
  have "rx_search variants_rx (?d @ post) = Some ([], ?d, [body], post)" .
  moreover have "rx_search variants_rx (pre @ ?d @ post) =
      (case rx_search variants_rx (?d @ post) of None \<Rightarrow> None
       | Some (p, m, caps, rest) \<Rightarrow> Some (pre @ p, m, caps, rest))"
    using rx_search_starts_in [OF assms(1), of "tl variants_rx" "?d @ post"]
    by (simp add: variants_rx_def)
  ultimately have "rx_search variants_rx (pre @ ?d @ post) = Some (pre, ?d, [body], post)"
    by simp
  then show ?thesis
    by (simp add: parseVariants_def variant_table_def foldl_add_variant)
qed

lemma parseVariants_no_directive:
  assumes "\<not> str_includes ''<!--'' html"
  shows "parseVariants html = []"
  using rx_search_no_literal [OF assms] by (simp add: parseVariants_def variants_rx_def)

text \<open>
  C7. The extractor reads the first directive only (\<open>parseVariants_directive\<close>: the
  table is that of the directive's body, whatever follows it), splits the body on commas
  and each pair at its first \<open>=\<close>, and a content without \<open><!--\<close> gives the empty
  table (\<open>parseVariants_no_directive\<close>). But an entry is to be dropped when its name
  or its classes are empty after trimming, and the code tests \<open>name && classes\<close> before
  it trims: an entry with a blank name is stored under the empty name. So the table of
  \<open><!-- variants: a=b, =c -->\<close> has the classes \<open>c\<close> under the empty name, where the
  specification's table has only \<open>a\<close>, and a reference with \<open>variant=""\<close> gets the
  class \<open>c\<close> instead of none.
\<close>

theorem parseVariants_keeps_blank_name:
  \<open>parseVariants ''<!-- variants: a=b, =c -->'' = [(''a'', ''b''), ([], ''c'')]
   \<and> spec_variant_table ''a=b, =c'' = [(''a'', ''b'')]
   \<and> compileHtml 2
         (sample_env
            [(''site/src/components/Tag.html'',
              ''<!-- variants: a=b, =c --><i class="{{ variantClasses }}"></i>'')] [])
         ''<Component src="Tag" variant="" />'' ''site/src'' None
       = Some (Inr ''<!-- variants: a=b, =c --><i class="c"></i>'')\<close>
  by code_simp


section \<open>Tags without a source\<close>

lemma self_closing_step_skip:
  "no_src (fst mc) \<Longrightarrow> self_closing_step compile e root projectRoot result mc = Some (Inr result)"
  by (auto simp: no_src_def self_closing_step_def split: option.splits)

lemma run_matches_all_skipped:
  assumes "\<And>result m. m \<in> set ms \<Longrightarrow> step result m = Some (Inr result)"
  shows "run_matches step ms result = Some (Inr result)"
  using assms by (induction ms arbitrary: result) auto

lemma only_skipped_tags:
  assumes "\<And>mc. mc \<in> set (match_all self_closing_rx html) \<Longrightarrow> no_src (fst mc)"
  shows "processSelfClosingComponents compile e html root projectRoot = Some (Inr html)"
  unfolding processSelfClosingComponents_def
  using assms by (intro run_matches_all_skipped self_closing_step_skip) simp

text \<open>
  C8. The turn of a match that the attribute parser rejects, or whose attributes have no
  non-empty \<open>src\<close>, returns the running result as it is and raises nothing
  (\<open>self_closing_step_skip\<close>), and a document whose matches are all of this kind comes
  out of the pass unchanged (\<open>only_skipped_tags\<close>). But the matched substring is not
  safe from the turns of the other matches: a turn replaces the first occurrence of its
  tag's text in the running result, not the match. In
  \<open><Component a="<Component src="Box" /> <Component src="Box" />\<close> the first match
  has no \<open>src\<close> and is skipped, and the turn of the second match then puts the content
  of \<open>Box\<close> inside the skipped one, where the same text occurs first; the reference
  itself stays.
\<close>

theorem skipped_tag_is_rewritten:
  \<open>match_all self_closing_rx ''<Component a="<Component src="Box" /> <Component src="Box" />''
     = [(''<Component a="<Component src="Box" />'', []), (''<Component src="Box" />'', [])]
   \<and> no_src ''<Component a="<Component src="Box" />''
   \<and> compileHtml 2 site_env ''<Component a="<Component src="Box" /> <Component src="Box" />''
         ''site/src'' None
     = Some (Inr ''<Component a="<div>{{ children }}</div> <Component src="Box" />'')\<close>
  by code_simp


section \<open>The default project root\<close>

text \<open>
  C9. Compiling with the project root absent (or \<open>null\<close>) is compiling with the project
  root set to the parent directory of the root directory, \<open>path.dirname(root)\<close>: the two
  calls return the same result for every document, root and nesting bound. The parent
  directory is what the resolver then searches: the candidate paths of a name are the one
  under \<open>root/components\<close> and the two under \<open>dirname(root)/src/components\<close> and
  \<open>dirname(root)/components\<close>, and a document of texts and well-formed references (as in
  C1) compiles to what its parts become when they are resolved with \<open>dirname(root)\<close> as
  the project root.
\<close>

theorem compileHtml_default_projectRoot:
  "compileHtml depth e html root None = compileHtml depth e html root (Some (path_dirname e root))
   \<and> possiblePaths e name root (effectiveProjectRoot e root None)
       = [path_join e [root, ''components'', normalize_name name @ ''.html''],
          path_join e [path_dirname e root, ''src'', ''components'', normalize_name name @ ''.html''],
          path_join e [path_dirname e root, ''components'', normalize_name name @ ''.html'']]
   \<and> ((\<forall>p out. (p, out) \<in> set doc \<longrightarrow>
          well_formed p
          \<and> outcome (\<lambda>content. compileHtml depth e content root (Some (path_dirname e root)))
                e root (path_dirname e root) p = Some (Inr out)
          \<and> \<not> starts_in ''<Component'' out
          \<and> (is_reference p \<longrightarrow> CHR ''$'' \<notin> set out)) \<longrightarrow>
        compileHtml (Suc depth) e (concat (map (\<lambda>po. source (fst po)) doc)) root None
          = Some (Inr (concat (map snd doc))))"
proof (intro conjI impI)
  show "compileHtml depth e html root None = compileHtml depth e html root (Some (path_dirname e root))"
    by (cases depth) (simp_all add: effectiveProjectRoot_def)
  show "possiblePaths e name root (effectiveProjectRoot e root None)
       = [path_join e [root, ''components'', normalize_name name @ ''.html''],
          path_join e [path_dirname e root, ''src'', ''components'', normalize_name name @ ''.html''],
          path_join e [path_dirname e root, ''components'', normalize_name name @ ''.html'']]"
    by (simp add: possiblePaths_def effectiveProjectRoot_def Let_def)
  assume a: "\<forall>p out. (p, out) \<in> set doc \<longrightarrow>
          well_formed p
          \<and> outcome (\<lambda>content. compileHtml depth e content root (Some (path_dirname e root)))
                e root (path_dirname e root) p = Some (Inr out)
          \<and> \<not> starts_in ''<Component'' out
          \<and> (is_reference p \<longrightarrow> CHR ''$'' \<notin> set out)"
  have epr: "effectiveProjectRoot e root None = path_dirname e root"
    by (simp add: effectiveProjectRoot_def)
  show "compileHtml (Suc depth) e (concat (map (\<lambda>po. source (fst po)) doc)) root None
          = Some (Inr (concat (map snd doc)))"
    using a by (intro compile_document) (simp add: epr)
qed

text \<open>
  A component that stands only under \<open>dirname(root)/components\<close> is found when the
  project root is absent, and is not found when another project root is given.
\<close>

theorem compileHtml_default_projectRoot_witness:
  \<open>html_file (sample_env [(''site/components/Footer.html'', ''<footer>f</footer>'')] [])
       (path_join (sample_env [(''site/components/Footer.html'', ''<footer>f</footer>'')] [])
          [path_dirname (sample_env [(''site/components/Footer.html'', ''<footer>f</footer>'')] []) ''site/src'',
           ''components'', ''Footer.html''])
     = Some ''<footer>f</footer>''
   \<and> compileHtml 2 (sample_env [(''site/components/Footer.html'', ''<footer>f</footer>'')] [])
         ''<body><Component src="Footer" /><Component name="Footer">x</Component></body>'' ''site/src'' None
     = Some (Inr ''<body><footer>f</footer><footer>f</footer></body>'')
   \<and> compileHtml 2 (sample_env [(''site/components/Footer.html'', ''<footer>f</footer>'')] [])
         ''<body><Component src="Footer" /><Component name="Footer">x</Component></body>'' ''site/src''
         (Some ''elsewhere'')
     = Some (Inr ''<body><!-- Component "Footer" not found --><!-- Component "Footer" not found --></body>'')\<close>
proof -
  let ?e = \<open>sample_env [(''site/components/Footer.html'', ''<footer>f</footer>'')] []\<close>
  let ?ok = "\<lambda>p out. well_formed p
      \<and> outcome (\<lambda>content. compileHtml 1 ?e content ''site/src'' (Some (path_dirname ?e ''site/src'')))
            ?e ''site/src'' (path_dirname ?e ''site/src'') p = Some (Inr out)
      \<and> \<not> starts_in ''<Component'' out
      \<and> (is_reference p \<longrightarrow> CHR ''$'' \<notin> set out)"
  let ?doc = \<open>[(Text ''<body>'', ''<body>''),
               (Self ''Footer" '', ''<footer>f</footer>''),
               (Slot ''Footer'' [] ''x'', ''<footer>f</footer>''),
               (Text ''</body>'', ''</body>'')]\<close>
  have 1: \<open>?ok (Text ''<body>'') ''<body>''\<close>
    by code_simp
  have 2: \<open>?ok (Self ''Footer" '') ''<footer>f</footer>''\<close>
    by code_simp
  have 3: \<open>?ok (Slot ''Footer'' [] ''x'') ''<footer>f</footer>''\<close>
    by code_simp
  have 4: \<open>?ok (Text ''</body>'') ''</body>''\<close>
    by code_simp
  have "\<forall>p out. (p, out) \<in> set ?doc \<longrightarrow> ?ok p out"
    using 1 2 3 4 by auto
  with compileHtml_default_projectRoot [where doc = ?doc and e = ?e and depth = 1 and root = "''site/src''",
      THEN conjunct2, THEN conjunct2]
  have a: \<open>compileHtml 2 ?e
         ''<body><Component src="Footer" /><Component name="Footer">x</Component></body>'' ''site/src'' None
     = Some (Inr ''<body><footer>f</footer><footer>f</footer></body>'')\<close>
    by (simp add: numeral_2_eq_2 del: compileHtml.simps)
  have b: \<open>html_file ?e (path_join ?e [path_dirname ?e ''site/src'', ''components'', ''Footer.html''])
     = Some ''<footer>f</footer>''\<close>
    by code_simp
  have c: \<open>compileHtml 2 ?e
         ''<body><Component src="Footer" /><Component name="Footer">x</Component></body>'' ''site/src''
         (Some ''elsewhere'')
     = Some (Inr ''<body><!-- Component "Footer" not found --><!-- Component "Footer" not found --></body>'')\<close>
    by code_simp
  from a b c show ?thesis
    by (simp del: compileHtml.simps)
qed


section \<open>The cleanup of unused placeholders\<close>

lemma takeWhile_hd:
  assumes "k < length (takeWhile p s)"
  shows "drop k s \<noteq> [] \<and> p (hd (drop k s))"
proof -
  have "k < length s"
    using assms length_takeWhile_le [of p s] by simp
  moreover have "takeWhile p s ! k = s ! k"
    using assms by (rule takeWhile_nth)
  moreover have "p (takeWhile p s ! k)"
    using assms nth_mem set_takeWhileD by fastforce
  ultimately show ?thesis
    by (simp add: hd_drop_conv_nth)
qed

lemma match_greedy_only:
  assumes "\<And>k. lo \<le> k \<Longrightarrow> k < length (takeWhile p s) \<Longrightarrow> match_here r (drop k s) = None"
  shows "match_here (Rep Greedy p lo False # r) s =
     (if lo \<le> length (takeWhile p s) then match_here r (dropWhile p s) else None)"
proof (cases "lo \<le> length (takeWhile p s)")
  case False
  then have "match_here (Rep Greedy p lo False # r) s = None"
    by (intro match_here_Rep_None) simp
  with False show ?thesis by simp
next
  case True
  have dw: "dropWhile p s = drop (length (takeWhile p s)) s"
    by (rule dropWhile_eq_drop)
  show ?thesis
  proof (cases "match_here r (dropWhile p s)")
    case None
    have "match_here r (drop j s) = None" if "lo \<le> j" "j \<le> length (takeWhile p s)" for j
      using that assms [of j] None dw by (cases "j = length (takeWhile p s)") simp_all
    then have "match_here (Rep Greedy p lo False # r) s = None"
      by (intro match_here_Rep_None) simp
    with True None show ?thesis by simp
  next
    case (Some a)
    obtain caps rest where a: "a = (caps, rest)"
      by (cases a)
    from match_greedy [of lo "length (takeWhile p s)" p s r caps rest False] True Some a dw
    show ?thesis by simp
  qed
qed

lemma match_close:
  "match_here [Rep Greedy is_space 0 False, Lit ''}}''] t =
     (if prefix ''}}'' (dropWhile is_space t) then Some ([], drop 2 (dropWhile is_space t)) else None)"
proof -
  have "match_here [Lit ''}}''] (drop k t) = None" if "k < length (takeWhile is_space t)" for k
  proof -
    from takeWhile_hd [OF that] obtain c u where "drop k t = c # u" "is_space c"
      by (cases "drop k t") auto
    then show ?thesis
      using brace_not_word(2) by auto
  qed
  from match_greedy_only [of 0 is_space t "[Lit ''}}'']", OF this] show ?thesis
    by (simp add: numeral_2_eq_2 del: match_here.simps(3))
qed

lemma match_name:
  "match_here [Rep Greedy is_word (Suc 0) False, Rep Greedy is_space 0 False, Lit ''}}''] t =
     (if takeWhile is_word t \<noteq> [] \<and> prefix ''}}'' (dropWhile is_space (dropWhile is_word t))
      then Some ([], drop 2 (dropWhile is_space (dropWhile is_word t))) else None)"
proof -
  let ?close = "[Rep Greedy is_space 0 False, Lit ''}}'']"
  have "match_here ?close (drop k t) = None" if "k < length (takeWhile is_word t)" for k
  proof -
    from takeWhile_hd [OF that] obtain c u where cu: "drop k t = c # u" "is_word c"
      by (cases "drop k t") auto
    then have "\<not> is_space c" "c \<noteq> CHR ''}''"
      using word_not_space brace_not_word(1) by auto
    with cu(1) show ?thesis
      by (simp add: match_close del: match_here.simps(3))
  qed
  from match_greedy_only [of "Suc 0" is_word t ?close, OF this] show ?thesis
    by (cases "takeWhile is_word t") (simp_all add: match_close del: match_here.simps(3))
qed

lemma match_placeholder:
  "match_here unused_rx s = map_option (Pair []) (placeholder_end s)"
proof (cases "prefix ''{{'' s")
  case False
  then show ?thesis
    by (simp add: unused_rx_def placeholder_end_def)
next
  case True
  let ?name = "[Rep Greedy is_word (Suc 0) False, Rep Greedy is_space 0 False, Lit ''}}'']"
  let ?t = "drop 2 s"
  have "match_here ?name (drop k ?t) = None" if "k < length (takeWhile is_space ?t)" for k
  proof -
    from takeWhile_hd [OF that] obtain c u where cu: "drop k ?t = c # u" "is_space c"
      by (cases "drop k ?t") auto
    then have "\<not> is_word c"
      using space_not_word by blast
    with cu(1) show ?thesis
      by (simp add: match_name del: match_here.simps(3))
  qed
  from match_greedy_only [of 0 is_space ?t ?name, OF this]
  have "match_here (Rep Greedy is_space 0 False # ?name) ?t = match_here ?name (dropWhile is_space ?t)"
    by (simp del: match_here.simps(3))
  with True show ?thesis
    by (simp add: unused_rx_def placeholder_end_def match_name Let_def numeral_2_eq_2
        del: match_here.simps(3))
qed

lemma clean_placeholder:
  assumes "placeholder_end s = Some rest"
  shows "cleanUnusedPlaceholders s = cleanUnusedPlaceholders rest"
proof -
  from assms have "match_here unused_rx s = Some ([], rest)"
    by (simp add: match_placeholder)
  from rx_search_hit [OF this]
  have "rx_search unused_rx s = Some ([], take (length s - length rest) s, [], rest)" .
  moreover have "take (length s - length rest) s \<noteq> []"
    using placeholder_end_shorter [OF assms] by auto
  ultimately show ?thesis
    unfolding cleanUnusedPlaceholders_def using replace_all_step by fastforce
qed

lemma clean_other:
  assumes "placeholder_end (c # t) = None"
  shows "cleanUnusedPlaceholders (c # t) = c # cleanUnusedPlaceholders t"
proof -
  from assms have miss: "match_here unused_rx (c # t) = None"
    by (simp add: match_placeholder)
  show ?thesis
  proof (cases "rx_search unused_rx t")
    case None
    with rx_search_miss [OF miss] show ?thesis
      by (simp add: cleanUnusedPlaceholders_def replace_all_None)
  next
    case (Some a)
    obtain pre m caps rest where a: "a = (pre, m, caps, rest)"
      by (cases a)
    have "m \<noteq> []"
    proof
      assume "m = []"
      with rx_search_match_here [of unused_rx t pre m caps rest] Some a
      have "match_here unused_rx rest = Some (caps, rest)"
        by simp
      then have "placeholder_end rest = Some rest"
        by (auto simp: match_placeholder)
      from placeholder_end_shorter [OF this] show False
        by simp
    qed
    moreover from rx_search_miss [OF miss] Some a
    have "rx_search unused_rx (c # t) = Some (c # pre, m, caps, rest)"
      by simp
    ultimately show ?thesis
      using Some a
      by (simp add: cleanUnusedPlaceholders_def replace_all_step [of unused_rx _ _ m caps rest])
  qed
qed

lemma clean_strip:
  "cleanUnusedPlaceholders s = strip_placeholders s"
proof (induction s rule: strip_placeholders.induct)
  case (1 s)
  show ?case
  proof (cases s)
    case Nil
    have "rx_search unused_rx [] = None"
      by (simp add: rx_search_Nil unused_rx_def)
    with Nil show ?thesis
      by (simp add: cleanUnusedPlaceholders_def replace_all_None strip_placeholders.simps [of "[]"])
  next
    case (Cons c t)
    show ?thesis
    proof (cases "placeholder_end s")
      case None
      with Cons "1.IH"(1) [OF Cons None] clean_other [of c t] show ?thesis
        by (simp add: strip_placeholders.simps [of "c # t"])
    next
      case (Some rest)
      with Cons "1.IH"(2) [OF Cons Some] clean_placeholder [OF Some] show ?thesis
        by (simp add: strip_placeholders.simps [of "c # t"])
    qed
  qed
qed

lemma placeholder_end_shape:
  "placeholder_end s = Some rest \<longleftrightarrow>
     (\<exists>ws1 name ws2. s = ''{{'' @ ws1 @ name @ ws2 @ ''}}'' @ rest
        \<and> list_all is_space ws1 \<and> list_all is_space ws2 \<and> name \<noteq> [] \<and> list_all is_word name)"
proof
  assume a: "placeholder_end s = Some rest"
  let ?s1 = "dropWhile is_space (drop 2 s)"
  let ?s2 = "dropWhile is_space (dropWhile is_word ?s1)"
  from a have p: "prefix ''{{'' s" "takeWhile is_word ?s1 \<noteq> []" "prefix ''}}'' ?s2" "rest = drop 2 ?s2"
    by (auto simp: placeholder_end_def Let_def split: if_splits)
  from p(1) have "s = ''{{'' @ drop 2 s"
    by (auto simp: prefix_def)
  moreover have "drop 2 s = takeWhile is_space (drop 2 s) @ ?s1"
    by simp
  moreover have "?s1 = takeWhile is_word ?s1 @ dropWhile is_word ?s1"
    by simp
  moreover have "dropWhile is_word ?s1 = takeWhile is_space (dropWhile is_word ?s1) @ ?s2"
    by simp
  moreover from p(3,4) have "?s2 = ''}}'' @ rest"
    by (auto simp: prefix_def)
  ultimately have "s = ''{{'' @ takeWhile is_space (drop 2 s) @ takeWhile is_word ?s1
      @ takeWhile is_space (dropWhile is_word ?s1) @ ''}}'' @ rest"
    by metis
  moreover have "list_all is_space (takeWhile is_space (drop 2 s))"
    "list_all is_word (takeWhile is_word ?s1)"
    "list_all is_space (takeWhile is_space (dropWhile is_word ?s1))"
    by (auto simp: list_all_iff dest: set_takeWhileD)
  ultimately show "\<exists>ws1 name ws2. s = ''{{'' @ ws1 @ name @ ws2 @ ''}}'' @ rest
        \<and> list_all is_space ws1 \<and> list_all is_space ws2 \<and> name \<noteq> [] \<and> list_all is_word name"
    using p(2) by blast
next
  assume "\<exists>ws1 name ws2. s = ''{{'' @ ws1 @ name @ ws2 @ ''}}'' @ rest
        \<and> list_all is_space ws1 \<and> list_all is_space ws2 \<and> name \<noteq> [] \<and> list_all is_word name"
  then obtain ws1 name ws2 where s: "s = ''{{'' @ ws1 @ name @ ws2 @ ''}}'' @ rest"
    and w: "list_all is_space ws1" "list_all is_space ws2" "name \<noteq> []" "list_all is_word name"
    by blast
  let ?tail = "CHR ''}'' # CHR ''}'' # rest"
  from w(3,4) have "\<not> is_space (hd name)"
    using word_not_space by (cases name) auto
  with w(1,3) have 1: "dropWhile is_space (ws1 @ name @ ws2 @ ?tail) = name @ ws2 @ ?tail"
    by (cases name) (auto simp: list_all_iff dropWhile_append)
  have n: "\<not> is_word (hd (ws2 @ ?tail))"
    using w(2) space_not_word brace_not_word(1) by (cases ws2) auto
  have 2: "takeWhile is_word (name @ ws2 @ ?tail) = name"
    using w(4) n by (cases "ws2 @ ?tail") (auto simp: list_all_iff takeWhile_append)
  have 3: "dropWhile is_word (name @ ws2 @ ?tail) = ws2 @ ?tail"
    using w(4) n by (cases "ws2 @ ?tail") (auto simp: list_all_iff dropWhile_append)
  have 4: "dropWhile is_space (ws2 @ ?tail) = ?tail"
    using w(2) brace_not_word(2) by (auto simp: list_all_iff dropWhile_append)
  show "placeholder_end s = Some rest"
    using w(3) unfolding s placeholder_end_def by (simp add: 1 2 3 4 Let_def)
qed

lemma hyphenated_survives: \<open>cleanUnusedPlaceholders ''{{ data-test }}'' = ''{{ data-test }}''\<close>
  by code_simp

lemma hyphenated_prop:
  \<open>parseSelfClosingComponentTag ''<Component src="a/b" data-test="x" />''
     = Some [(''src'', ''a/b''), (''data-test'', ''x'')]\<close>
  by code_simp

text \<open>
  C10. The cleanup is the reading of the text from left to right that leaves out every
  placeholder it comes to and keeps every other character, where a placeholder is
  \<open>{{\<close>, white space, a non-empty name of word characters, white space and \<open>}}\<close>.
  A name with a hyphen is not a word, so \<open>{{ data-test }}\<close> stays, although
  \<open>data-test\<close> is accepted as the name of a prop.
\<close>

theorem cleanUnusedPlaceholders_word_names:
  \<open>cleanUnusedPlaceholders html = strip_placeholders html
   \<and> (placeholder_end s = Some rest) =
       (\<exists>ws1 name ws2. s = ''{{'' @ ws1 @ name @ ws2 @ ''}}'' @ rest
          \<and> list_all is_space ws1 \<and> list_all is_space ws2 \<and> name \<noteq> [] \<and> list_all is_word name)
   \<and> cleanUnusedPlaceholders ''{{ data-test }}'' = ''{{ data-test }}''
   \<and> parseSelfClosingComponentTag ''<Component src="a/b" data-test="x" />''
       = Some [(''src'', ''a/b''), (''data-test'', ''x'')]\<close>
  using clean_strip placeholder_end_shape hyphenated_survives hyphenated_prop
  by blast


end
